theory Spec2Isabelle
  imports Main "HOL-Library.Sublist" "HOL-Library.Multiset"
begin

section \<open>Values of the host language\<close>

text \<open>
  \<open>src/index.js\<close> never inspects the type of what it is given: an item, a field of an
  item and the query all go through a template literal (\<open>`${x}`\<close>), and an item is
  indexed with \<open>item[key]\<close>. The model therefore carries the values a caller can pass.

  \<^item> A string is the list of its UTF-16 code units, each a natural number; \<open>str\<close>
    embeds a literal of Basic Latin characters.
  \<^item> \<open>JNum n\<close> is a number whose value is the integer \<open>n\<close>.
  \<^item> \<open>JObj fs\<close> is a plain record (its prototype is \<open>Object.prototype\<close>); \<open>fs\<close> lists
    its own data fields, the first binding of a name being the effective one.
  \<^item> \<open>JOther\<close> is any other value: a number that is not an integer, \<open>NaN\<close>, an
    infinity, a function, an array, a symbol.

  Where the language is too wide to be written out (the rendering of a number that
  is not a safe integer, the members a primitive inherits, the case mapping beyond
  the code units listed below), an operation answers \<open>NotModelled\<close>: the model
  makes no statement there, and every theorem that assumes a result
  \<open>Inr\<close> or \<open>Inl TypeError\<close> speaks of inputs on which the model is the code.
\<close>

type_synonym ustring = "nat list"

definition str :: "string \<Rightarrow> ustring" where
  "str s = map of_char s"

datatype jsval =
    JUndefined
  | JNull
  | JBool bool
  | JNum int
  | JStr ustring
  | JObj "(ustring \<times> jsval) list"
  | JOther

datatype error = TypeError | NotModelled

text \<open>
  The decimal digits of a natural number and of an integer (48 is the digit zero,
  45 the minus sign). \<open>toStr\<close> below uses them for safe integers only.
\<close>

fun digitsOf :: "nat \<Rightarrow> ustring" where
  "digitsOf n =
     (if n < 10 then [48 + n]
      else digitsOf (n div 10) @ [48 + n mod 10])"

declare digitsOf.simps [simp del]

definition numberToString :: "int \<Rightarrow> ustring" where
  "numberToString n =
     (if n < 0 then 45 # digitsOf (nat (- n)) else digitsOf (nat n))"

text \<open>
  The template literal \<open>`${x}`\<close>. A safe integer (at most \<open>2^53 - 1\<close> in magnitude) is
  rendered in decimal digits; larger ones are not all numbers of the language
  and are rendered with an exponent from \<open>1e21\<close>. For a record the conversion asks
  for its \<open>toString\<close> member: the inherited one answers \<open>[object Object]\<close>; an own
  field of that name (not callable, as every field value here) hides it, and the
  conversion throws.
\<close>

fun toStr :: "jsval \<Rightarrow> error + ustring" where
  "toStr JUndefined = Inr (str ''undefined'')"
| "toStr JNull = Inr (str ''null'')"
| "toStr (JBool b) = Inr (if b then str ''true'' else str ''false'')"
| "toStr (JNum n) =
     (if - 9007199254740991 \<le> n \<and> n \<le> 9007199254740991 then Inr (numberToString n)
      else Inl NotModelled)"
| "toStr (JStr s) = Inr s"
| "toStr (JObj fs) =
     (if str ''toString'' \<in> set (map fst fs) then Inl TypeError
      else Inr (str ''[object Object]''))"
| "toStr JOther = Inl NotModelled"

text \<open>The names of the members every plain record inherits from \<open>Object.prototype\<close>.\<close>

definition objectPrototypeNames :: "ustring list" where
  "objectPrototypeNames =
     map str [''constructor'', ''__defineGetter__'', ''__defineSetter__'',
       ''hasOwnProperty'', ''__lookupGetter__'', ''__lookupSetter__'', ''isPrototypeOf'',
       ''propertyIsEnumerable'', ''toString'', ''valueOf'', ''__proto__'',
       ''toLocaleString'']"

text \<open>
  \<open>item[key]\<close>: reading a property of \<open>undefined\<close> or \<open>null\<close> throws. A record
  answers with its own field of that name; without one, the read goes to the
  prototype: it finds a built-in member there for the names above (not modelled)
  and nothing, that is \<open>undefined\<close>, for any other name. A string has its
  \<open>length\<close> and its characters as own properties; what else a primitive inherits
  is not modelled.
\<close>

fun getProp :: "jsval \<Rightarrow> ustring \<Rightarrow> error + jsval" where
  "getProp JUndefined key = Inl TypeError"
| "getProp JNull key = Inl TypeError"
| "getProp (JBool b) key = Inl NotModelled"
| "getProp (JNum n) key = Inl NotModelled"
| "getProp (JStr s) key =
     (case find (\<lambda>i. digitsOf i = key) [0..<length s] of
        Some i \<Rightarrow> Inr (JStr [s ! i])
      | None \<Rightarrow> if key = str ''length'' then Inr (JNum (int (length s)))
                else Inl NotModelled)"
| "getProp (JObj fs) key =
     (case map_of fs key of
        Some v \<Rightarrow> Inr v
      | None \<Rightarrow> if key \<in> set objectPrototypeNames then Inl NotModelled
                else Inr JUndefined)"
| "getProp JOther key = Inl NotModelled"

subsection \<open>String operations used by the ranker\<close>

text \<open>
  \<open>s.toLowerCase()\<close>, code unit by code unit: the capital letters of Basic Latin
  and of the Latin-1 Supplement move by 32; \<open>U+0130\<close> (capital I with dot above)
  becomes the two units \<open>U+0069 U+0307\<close>, so the result can be longer than the
  string; the other units below \<open>U+0100\<close> and \<open>U+0307\<close> stay. The mapping of the
  remaining units is not modelled.
\<close>

definition toLowerCase_unit :: "nat \<Rightarrow> error + ustring" where
  "toLowerCase_unit n =
     (if (65 \<le> n \<and> n \<le> 90) \<or> (192 \<le> n \<and> n \<le> 222 \<and> n \<noteq> 215) then Inr [n + 32]
      else if n = 304 then Inr [105, 775]
      else if n < 256 \<or> n = 775 then Inr [n]
      else Inl NotModelled)"

fun toLowerCase :: "ustring \<Rightarrow> error + ustring" where
  "toLowerCase [] = Inr []"
| "toLowerCase (n # ns) =
     (case toLowerCase_unit n of
        Inl e \<Rightarrow> Inl e
      | Inr l \<Rightarrow>
     (case toLowerCase ns of
        Inl e \<Rightarrow> Inl e
      | Inr ls \<Rightarrow> Inr (l @ ls)))"

text \<open>\<open>s.indexOf(p)\<close>: the first position where \<open>p\<close> starts in \<open>s\<close>, or \<open>-1\<close>.\<close>

fun indexOf_from :: "ustring \<Rightarrow> ustring \<Rightarrow> nat \<Rightarrow> int" where
  "indexOf_from [] p i = (if p = [] then int i else - 1)"
| "indexOf_from (c # cs) p i =
     (if prefix p (c # cs) then int i else indexOf_from cs p (Suc i))"

definition indexOf :: "ustring \<Rightarrow> ustring \<Rightarrow> int" where
  "indexOf s p = indexOf_from s p 0"

text \<open>\<open>s.split(sep)\<close> for a one-character separator: never the empty list.\<close>

fun split :: "nat \<Rightarrow> ustring \<Rightarrow> ustring list" where
  "split sep [] = [[]]"
| "split sep (c # cs) =
     (if c = sep then [] # split sep cs
      else (case split sep cs of
              w # ws \<Rightarrow> (c # w) # ws
            | [] \<Rightarrow> [[c]]))"

text \<open>\<open>s.substr(0, 1)\<close>\<close>

definition substr01 :: "ustring \<Rightarrow> ustring" where
  "substr01 s = take 1 s"

section \<open>The ranker\<close>

record rank_map =
  equals :: int
  startsWith :: int
  wordStartsWith :: int
  contains :: int
  acronym :: int
  matches :: int
  noMatch :: int

definition matchRankMap :: rank_map where
  "matchRankMap =
     \<lparr>equals = 5, startsWith = 4, wordStartsWith = 3, contains = 2,
      acronym = 1, matches = 0, noMatch = - 1\<rparr>"

text \<open>
  \<open>getAcronym\<close>: the two nested \<open>forEach\<close> loops append to \<open>acronym\<close>. The separators
  are the space (32) and the hyphen (45).
\<close>

definition getAcronym :: "ustring \<Rightarrow> ustring" where
  "getAcronym string =
     (let wordsInString = split 32 string
      in foldl (\<lambda>acronym wordInString.
                  let splitByHyphenWords = split 45 wordInString
                  in foldl (\<lambda>acronym splitByHyphenWord. acronym @ substr01 splitByHyphenWord)
                       acronym splitByHyphenWords)
           [] wordsInString)"

text \<open>
  \<open>stringsByCharOrder\<close>. The cursor \<open>charNumber\<close> is a variable of the enclosing
  function that \<open>findMatchingCharacter\<close> updates: here it is passed in and returned
  with the answer. The \<open>for\<close> loops are recursions on their counters.
\<close>

function findMatchingCharacter_loop :: "nat \<Rightarrow> ustring \<Rightarrow> nat \<Rightarrow> nat \<Rightarrow> bool \<times> nat" where
  "findMatchingCharacter_loop matchChar string charNumber j =
     (if j < length string then
        (if string ! j = matchChar then (True, j + 1)
         else findMatchingCharacter_loop matchChar string charNumber (j + 1))
      else (False, charNumber))"
  by pat_completeness auto
termination
  by (relation "measure (\<lambda>(matchChar, string, charNumber, j). length string - j)") auto

declare findMatchingCharacter_loop.simps [simp del]

definition findMatchingCharacter :: "nat \<Rightarrow> ustring \<Rightarrow> nat \<Rightarrow> bool \<times> nat" where
  "findMatchingCharacter matchChar string charNumber =
     findMatchingCharacter_loop matchChar string charNumber charNumber"

function stringsByCharOrder_loop :: "ustring \<Rightarrow> ustring \<Rightarrow> nat \<Rightarrow> nat \<Rightarrow> int" where
  "stringsByCharOrder_loop testString stringToRank charNumber i =
     (if i < length stringToRank then
        (let matchChar = stringToRank ! i;
             (found, charNumber') = findMatchingCharacter matchChar testString charNumber
         in if \<not> found then noMatch matchRankMap
            else stringsByCharOrder_loop testString stringToRank charNumber' (i + 1))
      else matches matchRankMap)"
  by pat_completeness auto
termination
  by (relation "measure (\<lambda>(testString, stringToRank, charNumber, i). length stringToRank - i)")
     auto

declare stringsByCharOrder_loop.simps [simp del]

definition stringsByCharOrder :: "ustring \<Rightarrow> ustring \<Rightarrow> int" where
  "stringsByCharOrder testString stringToRank =
     stringsByCharOrder_loop testString stringToRank 0 0"

text \<open>
  \<open>getMatchRanking\<close>: each argument is converted to a string and lowercased (lines
  56 and 57), then the tests run in the order of the source, on the lowercased
  strings.
\<close>

definition getMatchRanking :: "jsval \<Rightarrow> jsval \<Rightarrow> error + int" where
  "getMatchRanking testString stringToRank =
     (case toStr testString of
        Inl e \<Rightarrow> Inl e
      | Inr ts \<Rightarrow>
     (case toLowerCase ts of
        Inl e \<Rightarrow> Inl e
      | Inr testString \<Rightarrow>
     (case toStr stringToRank of
        Inl e \<Rightarrow> Inl e
      | Inr sr \<Rightarrow>
     (case toLowerCase sr of
        Inl e \<Rightarrow> Inl e
      | Inr stringToRank \<Rightarrow>
         Inr
           (if length stringToRank > length testString then noMatch matchRankMap
            else if testString = stringToRank then equals matchRankMap
            else if indexOf testString stringToRank = 0 then startsWith matchRankMap
            else if indexOf testString (32 # stringToRank) \<noteq> - 1
              then wordStartsWith matchRankMap
            else if indexOf testString stringToRank \<noteq> - 1 then contains matchRankMap
            else if length stringToRank = 1 then noMatch matchRankMap
            else if indexOf (getAcronym testString) stringToRank \<noteq> - 1
              then acronym matchRankMap
            else stringsByCharOrder testString stringToRank)))))"

section \<open>The field selector\<close>

record ranking =
  rank :: int
  keyIndex :: int

text \<open>
  \<open>xs.reduce(f, init)\<close>: the callback receives the accumulator, the element and its
  index; an exception thrown by the callback ends the reduction.
\<close>

fun reduce :: "('b \<Rightarrow> 'a \<Rightarrow> nat \<Rightarrow> error + 'b) \<Rightarrow> 'b \<Rightarrow> 'a list \<Rightarrow> nat \<Rightarrow> error + 'b" where
  "reduce f acc [] i = Inr acc"
| "reduce f acc (x # xs) i =
     (case f acc x i of
        Inl e \<Rightarrow> Inl e
      | Inr acc' \<Rightarrow> reduce f acc' xs (Suc i))"

text \<open>The arrow function that \<open>getHighestRanking\<close> hands to \<open>keys.reduce\<close>.\<close>

definition rankKey :: "jsval \<Rightarrow> jsval \<Rightarrow> ranking \<Rightarrow> ustring \<Rightarrow> nat \<Rightarrow> error + ranking" where
  "rankKey item value acc key i =
     (case getProp item key of
        Inl e \<Rightarrow> Inl e
      | Inr field \<Rightarrow>
     (case getMatchRanking field value of
        Inl e \<Rightarrow> Inl e
      | Inr newRank \<Rightarrow>
          Inr (if newRank > rank acc then \<lparr>rank = newRank, keyIndex = int i\<rparr> else acc)))"

text \<open>
  \<open>keys\<close> is \<open>None\<close> when the option is not given (\<open>!keys\<close> holds); an array, also the
  empty one, is truthy and is reduced.
\<close>

definition getHighestRanking :: "jsval \<Rightarrow> ustring list option \<Rightarrow> jsval \<Rightarrow> error + ranking" where
  "getHighestRanking item keys value =
     (case keys of
        None \<Rightarrow>
          (case getMatchRanking item value of
             Inl e \<Rightarrow> Inl e
           | Inr r \<Rightarrow> Inr \<lparr>rank = r, keyIndex = - 1\<rparr>)
      | Some ks \<Rightarrow>
          reduce (rankKey item value) \<lparr>rank = noMatch matchRankMap, keyIndex = - 1\<rparr> ks 0)"

section \<open>The order policy and the top level\<close>

record ranked = ranking +
  item :: jsval
  index :: nat

definition sortRankedItems :: "ranked \<Rightarrow> ranked \<Rightarrow> int" where
  "sortRankedItems a b =
     (let aFirst = - 1; bFirst = 1;
          same = (rank a = rank b)
      in if same then
           (if keyIndex a = keyIndex b then (if index a < index b then aFirst else bFirst)
            else (if keyIndex a < keyIndex b then aFirst else bFirst))
         else (if rank a > rank b then aFirst else bFirst))"

text \<open>
  \<open>xs.sort(cmp)\<close>. The language leaves the algorithm to the engine and asks for a
  stable one; the model is the stable insertion sort, which compares distinct
  elements only. \<open>array_sort_unique\<close> below shows that for the records of one call
  the choice does not matter: any permutation that the comparator accepts is the
  same list. (\<open>sortRankedItems\<close> answers 1, not 0, for a record and itself; an
  engine that compared an element with itself would be outside this model.)
\<close>

fun insert_cmp :: "('a \<Rightarrow> 'a \<Rightarrow> int) \<Rightarrow> 'a \<Rightarrow> 'a list \<Rightarrow> 'a list" where
  "insert_cmp cmp x [] = [x]"
| "insert_cmp cmp x (y # ys) =
     (if cmp x y \<le> 0 then x # y # ys else y # insert_cmp cmp x ys)"

fun array_sort :: "('a \<Rightarrow> 'a \<Rightarrow> int) \<Rightarrow> 'a list \<Rightarrow> 'a list" where
  "array_sort cmp [] = []"
| "array_sort cmp (x # xs) = insert_cmp cmp x (array_sort cmp xs)"

record options =
  keys :: "ustring list option"

text \<open>The default of the third parameter: \<open>options = {}\<close>.\<close>

definition default_options :: options where
  "default_options = \<lparr>keys = None\<rparr>"

definition reduceItemsToRanked ::
    "ustring list option \<Rightarrow> jsval \<Rightarrow> ranked list \<Rightarrow> jsval \<Rightarrow> nat \<Rightarrow> error + ranked list" where
  "reduceItemsToRanked ks value matched it i =
     (case getHighestRanking it ks value of
        Inl e \<Rightarrow> Inl e
      | Inr hr \<Rightarrow>
          Inr (if rank hr > noMatch matchRankMap
               then matched @ [\<lparr>rank = rank hr, keyIndex = keyIndex hr, item = it, index = i\<rparr>]
               else matched))"

definition matchSorter :: "jsval list \<Rightarrow> jsval \<Rightarrow> options \<Rightarrow> error + jsval list" where
  "matchSorter items value opts =
     (case reduce (reduceItemsToRanked (keys opts) value) [] items 0 of
        Inl e \<Rightarrow> Inl e
      | Inr matchedItems \<Rightarrow> Inr (map item (array_sort sortRankedItems matchedItems)))"

section \<open>The order of the specification\<close>

text \<open>
  The order policy in the words of the specification (section 4.3), to be compared
  with the comparator of the source: rank tier descending, then selector index
  ascending, then original input index ascending.
\<close>

definition order_policy :: "ranked \<Rightarrow> ranked \<Rightarrow> bool" where
  "order_policy a b \<longleftrightarrow>
     rank b < rank a
     \<or> (rank a = rank b
        \<and> (keyIndex a < keyIndex b \<or> (keyIndex a = keyIndex b \<and> index a < index b)))"

section \<open>Facts about the string operations\<close>

lemma indexOf_from_range: "indexOf_from s p i = - 1 \<or> int i \<le> indexOf_from s p i"
  by (induction s arbitrary: i) (auto, force)

lemma indexOf_from_start: "indexOf_from s p i = int i \<longleftrightarrow> prefix p s"
proof (cases s)
  case Nil
  then show ?thesis by auto
next
  case (Cons c cs)
  have "indexOf_from cs p (Suc i) \<noteq> int i"
    using indexOf_from_range [of cs p "Suc i"] by auto
  with Cons show ?thesis by simp
qed

lemma indexOf_from_found: "indexOf_from s p i \<noteq> - 1 \<longleftrightarrow> sublist p s"
  by (induction s arbitrary: i) (auto simp: sublist_Cons_right)

lemma indexOf_zero: "indexOf s p = 0 \<longleftrightarrow> prefix p s"
  using indexOf_from_start [of s p 0] by (simp add: indexOf_def)

lemma indexOf_found: "indexOf s p \<noteq> - 1 \<longleftrightarrow> sublist p s"
  by (simp add: indexOf_def indexOf_from_found)

lemma sublist_single: "sublist [c] s \<longleftrightarrow> c \<in> set s"
  by (induction s) (auto simp: sublist_Cons_right)

lemma toLowerCase_unit_not_Nil: "toLowerCase_unit n = Inr l \<Longrightarrow> l \<noteq> []"
  by (auto simp: toLowerCase_unit_def split: if_splits)

lemma toLowerCase_append:
  "toLowerCase (a @ b) =
     (case toLowerCase a of
        Inl e \<Rightarrow> Inl e
      | Inr la \<Rightarrow> (case toLowerCase b of Inl e \<Rightarrow> Inl e | Inr lb \<Rightarrow> Inr (la @ lb)))"
  by (induction a) (auto split: sum.splits)

lemma toLowerCase_Nil_iff: "toLowerCase s = Inr [] \<longleftrightarrow> s = []"
proof (cases s)
  case Nil
  then show ?thesis by simp
next
  case (Cons n ns)
  then show ?thesis
    by (auto split: sum.splits dest: toLowerCase_unit_not_Nil)
qed

text \<open>A proper prefix stays a proper prefix under lowercasing.\<close>

lemma toLowerCase_proper_prefix:
  assumes "prefix p s" and "p \<noteq> s" and "toLowerCase s = Inr ls"
  shows "\<exists>lp. toLowerCase p = Inr lp \<and> prefix lp ls \<and> lp \<noteq> ls"
proof -
  from assms(1,2) obtain r where s: "s = p @ r" and r: "r \<noteq> []"
    by (auto simp: prefix_def)
  from assms(3) obtain lp lr where
    lp: "toLowerCase p = Inr lp" and lr: "toLowerCase r = Inr lr" and ls: "ls = lp @ lr"
    unfolding s toLowerCase_append by (auto split: sum.splits)
  from lr r have "lr \<noteq> []"
    using toLowerCase_Nil_iff [of r] by auto
  with lp ls show ?thesis by auto
qed

lemma digit_lower: "n < 10 \<Longrightarrow> toLowerCase_unit (48 + n) = Inr [48 + n]"
  by (simp add: toLowerCase_unit_def)

lemma toLowerCase_digitsOf: "toLowerCase (digitsOf n) = Inr (digitsOf n)"
proof (induction n rule: digitsOf.induct)
  case (1 n)
  show ?case
  proof (cases "n < 10")
    case True
    then show ?thesis
      by (subst (1 2) digitsOf.simps) (simp add: digit_lower)
  next
    case False
    have "n mod 10 < 10" by simp
    with False 1 show ?thesis
      by (subst (1 2) digitsOf.simps) (simp add: toLowerCase_append digit_lower)
  qed
qed

lemma toLowerCase_numberToString: "toLowerCase (numberToString n) = Inr (numberToString n)"
  by (simp add: numberToString_def toLowerCase_digitsOf toLowerCase_unit_def)

section \<open>Facts about the ranker\<close>

lemma getMatchRanking_coerce:
  "toStr t = Inr ts \<Longrightarrow> toStr q = Inr qs \<Longrightarrow>
   getMatchRanking t q = getMatchRanking (JStr ts) (JStr qs)"
  by (simp add: getMatchRanking_def split: sum.splits)

text \<open>The decision procedure, with the library's predicates for the index tests.\<close>

lemma getMatchRanking_str:
  "toLowerCase ts = Inr t \<Longrightarrow> toLowerCase qs = Inr q \<Longrightarrow>
   getMatchRanking (JStr ts) (JStr qs) =
     Inr (if length t < length q then noMatch matchRankMap
         else if t = q then equals matchRankMap
         else if prefix q t then startsWith matchRankMap
         else if sublist (32 # q) t then wordStartsWith matchRankMap
         else if sublist q t then contains matchRankMap
         else if length q = 1 then noMatch matchRankMap
         else if sublist q (getAcronym t) then acronym matchRankMap
         else stringsByCharOrder t q)"
  by (simp add: getMatchRanking_def indexOf_zero indexOf_found)

subsection \<open>The cursor scan decides the subsequence relation\<close>

lemma findMatchingCharacter_loop_subseq:
  "subseq (m # qs) (drop j s) \<longleftrightarrow>
     fst (findMatchingCharacter_loop m s c j)
     \<and> subseq qs (drop (snd (findMatchingCharacter_loop m s c j)) s)"
proof (induction m s c j rule: findMatchingCharacter_loop.induct)
  case (1 m s c j)
  show ?case
  proof (cases "j < length s")
    case True
    then have d: "drop j s = s ! j # drop (j + 1) s"
      by (simp add: Cons_nth_drop_Suc)
    show ?thesis
    proof (cases "s ! j = m")
      case True
      with \<open>j < length s\<close> d show ?thesis
        by (subst (1 2) findMatchingCharacter_loop.simps) simp
    next
      case False
      with \<open>j < length s\<close> d 1 show ?thesis
        by (subst (1 2) findMatchingCharacter_loop.simps) simp
    qed
  next
    case False
    then show ?thesis
      by (subst (1 2) findMatchingCharacter_loop.simps) simp
  qed
qed

text \<open>What the scan returns: the first occurrence at or after the cursor.\<close>

lemma findMatchingCharacter_loop_first:
  "c \<le> j \<Longrightarrow> findMatchingCharacter_loop m s c j = (found, c') \<Longrightarrow>
     (if found then j < c' \<and> c' \<le> length s \<and> s ! (c' - 1) = m
                    \<and> (\<forall>k. j \<le> k \<and> k < c' - 1 \<longrightarrow> s ! k \<noteq> m)
      else c' = c \<and> (\<forall>k. j \<le> k \<and> k < length s \<longrightarrow> s ! k \<noteq> m))"
proof (induction m s c j rule: findMatchingCharacter_loop.induct)
  case (1 m s c j)
  show ?case
  proof (cases "j < length s")
    case True
    show ?thesis
    proof (cases "s ! j = m")
      case True
      with \<open>j < length s\<close> "1.prems" show ?thesis
        by (subst (asm) findMatchingCharacter_loop.simps) auto
    next
      case False
      from False \<open>j < length s\<close> "1.prems"(2)
      have r: "findMatchingCharacter_loop m s c (j + 1) = (found, c')"
        by (subst (asm) findMatchingCharacter_loop.simps) simp
      have "c \<le> j + 1" using "1.prems"(1) by simp
      from "1.IH" [OF \<open>j < length s\<close> False this r] False
      show ?thesis
        by (auto simp: le_Suc_eq elim: le_SucE) (metis Suc_leI le_neq_implies_less)+
    qed
  next
    case False
    with "1.prems" show ?thesis
      by (subst (asm) findMatchingCharacter_loop.simps) auto
  qed
qed

lemma stringsByCharOrder_loop_subseq:
  "i \<le> length q \<Longrightarrow>
   stringsByCharOrder_loop t q c i =
     (if subseq (drop i q) (drop c t) then matches matchRankMap else noMatch matchRankMap)"
proof (induction t q c i rule: stringsByCharOrder_loop.induct)
  case (1 t q c i)
  show ?case
  proof (cases "i < length q")
    case True
    then have d: "drop i q = q ! i # drop (i + 1) q"
      by (simp add: Cons_nth_drop_Suc)
    obtain found c' where f: "findMatchingCharacter (q ! i) t c = (found, c')"
      by (cases "findMatchingCharacter (q ! i) t c")
    have s: "subseq (drop i q) (drop c t) \<longleftrightarrow> found \<and> subseq (drop (i + 1) q) (drop c' t)"
      using findMatchingCharacter_loop_subseq [of "q ! i" "drop (i + 1) q" c t c] f
      by (simp add: d findMatchingCharacter_def)
    show ?thesis
    proof (cases found)
      case True
      have le: "i + 1 \<le> length q" using \<open>i < length q\<close> by simp
      have nn: "\<not> \<not> found" using True by simp
      from "1.IH" [OF \<open>i < length q\<close> refl refl f [symmetric] nn le]
      have "stringsByCharOrder_loop t q c' (i + 1) =
        (if subseq (drop (i + 1) q) (drop c' t) then matches matchRankMap else noMatch matchRankMap)"
        by simp
      with True \<open>i < length q\<close> f s show ?thesis
        by (subst stringsByCharOrder_loop.simps) simp
    next
      case False
      with \<open>i < length q\<close> f s show ?thesis
        by (subst stringsByCharOrder_loop.simps) simp
    qed
  next
    case False
    with "1.prems" show ?thesis
      by (subst stringsByCharOrder_loop.simps) simp
  qed
qed

lemma stringsByCharOrder_subseq:
  "stringsByCharOrder t q =
     (if subseq q t then matches matchRankMap else noMatch matchRankMap)"
  using stringsByCharOrder_loop_subseq [of 0 q t 0] by (simp add: stringsByCharOrder_def)

subsection \<open>The acronym in closed form\<close>

lemma split_not_Nil: "split sep s \<noteq> []"
  by (induction s) (auto split: list.splits)

lemma split_pieces: "w \<in> set (split sep s) \<Longrightarrow> sep \<notin> set w"
  by (induction s arbitrary: w) (auto split: list.splits if_splits)

lemma split_join: "concat (map (\<lambda>w. sep # w) (split sep s)) = sep # s"
  by (induction s) (auto split: list.splits simp: split_not_Nil)

lemma foldl_append_concat: "foldl (\<lambda>a x. a @ f x) acc xs = acc @ concat (map f xs)"
  by (induction xs arbitrary: acc) simp_all

lemma first_chars: "concat (map (take 1) ws) = map hd (filter (\<lambda>w. w \<noteq> []) ws)"
proof (induction ws)
  case Nil
  show ?case by simp
next
  case (Cons w ws)
  then show ?case by (cases w) simp_all
qed

lemma concat_map_nested:
  "concat (map (\<lambda>w. concat (map f (g w))) ws) = concat (map f (concat (map g ws)))"
  by (induction ws) simp_all

lemma getAcronym_concat:
  "getAcronym s = concat (map (take 1) (concat (map (split 45) (split 32 s))))"
proof -
  have "getAcronym s =
      foldl (\<lambda>a w. a @ concat (map (take 1) (split 45 w))) [] (split 32 s)"
    by (simp add: getAcronym_def Let_def substr01_def foldl_append_concat)
  also have "\<dots> = concat (map (\<lambda>w. concat (map (take 1) (split 45 w))) (split 32 s))"
    by (simp add: foldl_append_concat)
  also have "\<dots> = concat (map (take 1) (concat (map (split 45) (split 32 s))))"
    by (rule concat_map_nested)
  finally show ?thesis .
qed

section \<open>Single-character queries\<close>

text \<open>
  Claim C8, as stated, fails: the length test of line 82 is made on the lowercased
  query, and the one-unit query \<open>U+0130\<close> lowercases to two units. Against the
  candidate \<open>i a U+0307\<close>, which does not contain them side by side, it is ranked
  \<open>matches\<close> by the subsequence test, and the candidate is returned.
\<close>

theorem single_char_query_counterexample:
  "length [304 :: nat] = 1
   \<and> toLowerCase [304] = Inr [105, 775]
   \<and> \<not> sublist [105, 775] [105, 97, 775 :: nat]
   \<and> getMatchRanking (JStr [105, 97, 775]) (JStr [304]) = Inr (matches matchRankMap)
   \<and> matchSorter [JStr [105, 97, 775]] (JStr [304]) default_options
       = Inr [JStr [105, 97, 775]]"
  by code_simp

text \<open>
  Claim C8, amended. A query whose lowercased text is one code unit that does not
  occur in the lowercased candidate is ranked \<open>noMatch\<close>; a query whose lowercased
  text is one code unit is never ranked \<open>acronym\<close> or \<open>matches\<close>; and the query
  \<open>d\<close> against \<open>['abc']\<close> gives the empty output.
\<close>

theorem single_char_query:
  assumes "toStr t = Inr ts" and "toLowerCase ts = Inr lt"
    and "toStr q = Inr qs" and "toLowerCase qs = Inr [c]"
  shows "(c \<notin> set lt \<longrightarrow> getMatchRanking t q = Inr (noMatch matchRankMap))
     \<and> getMatchRanking t q \<noteq> Inr (acronym matchRankMap)
     \<and> getMatchRanking t q \<noteq> Inr (matches matchRankMap)
     \<and> matchSorter [JStr (str ''abc'')] (JStr (str ''d'')) default_options = Inr []"
proof -
  have sub: "c \<notin> set lt \<Longrightarrow> \<not> sublist [c] lt"
    by (simp add: sublist_single)
  have ex: "matchSorter [JStr (str ''abc'')] (JStr (str ''d'')) default_options = Inr []"
    by code_simp
  have main: "(c \<notin> set lt \<longrightarrow> getMatchRanking t q = Inr (noMatch matchRankMap))
     \<and> getMatchRanking t q \<noteq> Inr (acronym matchRankMap)
     \<and> getMatchRanking t q \<noteq> Inr (matches matchRankMap)"
    unfolding getMatchRanking_coerce [OF assms(1,3)] getMatchRanking_str [OF assms(2,4)]
    using sub by (auto simp: matchRankMap_def dest: set_mono_sublist set_mono_prefix)
  show ?thesis
    by (intro conjI main [THEN conjunct1] main [THEN conjunct2, THEN conjunct1]
        main [THEN conjunct2, THEN conjunct2] ex)
qed

theorem single_char_query_witness:
  "toLowerCase (str ''abc'') = Inr (str ''abc'') \<and> toLowerCase (str ''D'') = Inr [100]
   \<and> 100 \<notin> set (str ''abc'')
   \<and> getMatchRanking (JStr (str ''abc'')) (JStr (str ''D'')) = Inr (noMatch matchRankMap)"
proof -
  have h2: "toLowerCase (str ''abc'') = Inr (str ''abc'')"
    and h4: "toLowerCase (str ''D'') = Inr [100]"
    by code_simp+
  have h5: "100 \<notin> set (str ''abc'')"
    by (simp add: str_def)
  note r = single_char_query [OF toStr.simps(5) h2 toStr.simps(5) h4, THEN conjunct1, THEN mp, OF h5]
  show ?thesis
    by (intro conjI h2 h4 h5 r)
qed

section \<open>Coercion to text\<close>

text \<open>
  Claim C10. The compared value and the query are both converted to their string
  rendering before anything else: the ranking of two values is the ranking of their
  renderings. So the item \<open>undefined\<close> is ranked \<open>equals\<close> for the query
  \<open>'undefined'\<close> and is returned, the item \<open>null\<close> likewise for \<open>'null'\<close>. An item
  of any type is ranked \<open>startsWith\<close> for a proper prefix of its rendering, and is
  returned; the rendering of a number that is a safe integer is its decimal digits,
  which lowercasing leaves as they are.
\<close>

theorem textual_coercion:
  "(toStr t = Inr ts \<and> toStr q = Inr qs \<longrightarrow>
      getMatchRanking t q = getMatchRanking (JStr ts) (JStr qs))
   \<and> getMatchRanking JUndefined (JStr (str ''undefined'')) = Inr (equals matchRankMap)
   \<and> matchSorter [JUndefined] (JStr (str ''undefined'')) default_options = Inr [JUndefined]
   \<and> getMatchRanking JNull (JStr (str ''null'')) = Inr (equals matchRankMap)
   \<and> matchSorter [JNull] (JStr (str ''null'')) default_options = Inr [JNull]
   \<and> (toStr (JNum n) = Inr s \<longrightarrow> s = numberToString n \<and> toLowerCase s = Inr s)
   \<and> (toStr v = Inr r \<and> toLowerCase r = Inr lr \<and> prefix p r \<and> p \<noteq> r \<longrightarrow>
        getMatchRanking v (JStr p) = Inr (startsWith matchRankMap)
        \<and> matchSorter [v] (JStr p) default_options = Inr [v])"
proof -
  have a: "toStr t = Inr ts \<and> toStr q = Inr qs \<longrightarrow>
      getMatchRanking t q = getMatchRanking (JStr ts) (JStr qs)"
    by (intro impI, elim conjE) (rule getMatchRanking_coerce)
  have b: "getMatchRanking JUndefined (JStr (str ''undefined'')) = Inr (equals matchRankMap)"
    by code_simp
  have c: "matchSorter [JUndefined] (JStr (str ''undefined'')) default_options = Inr [JUndefined]"
    by code_simp
  have d: "getMatchRanking JNull (JStr (str ''null'')) = Inr (equals matchRankMap)"
    by code_simp
  have e: "matchSorter [JNull] (JStr (str ''null'')) default_options = Inr [JNull]"
    by code_simp
  have f: "toStr (JNum n) = Inr s \<longrightarrow> s = numberToString n \<and> toLowerCase s = Inr s"
    by (auto simp: toLowerCase_numberToString split: if_splits)
  have g: "toStr v = Inr r \<and> toLowerCase r = Inr lr \<and> prefix p r \<and> p \<noteq> r \<longrightarrow>
        getMatchRanking v (JStr p) = Inr (startsWith matchRankMap)
        \<and> matchSorter [v] (JStr p) default_options = Inr [v]"
  proof (intro impI, elim conjE)
    assume v: "toStr v = Inr r" and lr: "toLowerCase r = Inr lr"
      and pre: "prefix p r" and ne: "p \<noteq> r"
    from toLowerCase_proper_prefix [OF pre ne lr] obtain lp where
      lp: "toLowerCase p = Inr lp" and pl: "prefix lp lr" and nl: "lp \<noteq> lr"
      by blast
    have len: "\<not> length lr < length lp"
      using pl by (simp add: prefix_length_le leD)
    have "getMatchRanking v (JStr p) = getMatchRanking (JStr r) (JStr p)"
      using v by (rule getMatchRanking_coerce) simp
    also have "\<dots> = Inr (startsWith matchRankMap)"
      unfolding getMatchRanking_str [OF lr lp] using pl nl len by auto
    finally have rk: "getMatchRanking v (JStr p) = Inr (startsWith matchRankMap)" .
    then have "matchSorter [v] (JStr p) default_options = Inr [v]"
      by (simp add: matchSorter_def reduceItemsToRanked_def getHighestRanking_def
          default_options_def matchRankMap_def)
    with rk show "getMatchRanking v (JStr p) = Inr (startsWith matchRankMap)
        \<and> matchSorter [v] (JStr p) default_options = Inr [v]"
      by (rule conjI)
  qed
  show ?thesis
    by (intro conjI a b c d e f g)
qed

theorem textual_coercion_witness:
  "getMatchRanking (JBool True) (JNum 1) = getMatchRanking (JStr (str ''true'')) (JStr (str ''1''))
   \<and> toStr (JNum 123) = Inr (str ''123'')
   \<and> getMatchRanking (JNum 123) (JStr (str ''12'')) = Inr (startsWith matchRankMap)
   \<and> matchSorter [JNum 123] (JStr (str ''12'')) default_options = Inr [JNum 123]"
proof -
  have a: "toStr (JBool True) = Inr (str ''true'') \<and> toStr (JNum 1) = Inr (str ''1'')"
    by code_simp
  have n: "toStr (JNum 123) = Inr (str ''123'')"
    by code_simp
  note T = textual_coercion [of "JBool True" "str ''true''" "JNum 1" "str ''1''" 123
      "str ''123''" "JNum 123" "str ''123''" "str ''123''" "str ''12''"]
  note r1 = T [THEN conjunct1, THEN mp, OF a]
  note r6 = T [THEN conjunct2, THEN conjunct2, THEN conjunct2, THEN conjunct2,
      THEN conjunct2, THEN conjunct1, THEN mp, OF n, THEN conjunct2]
  have pre: "prefix (str ''12'') (str ''123'') \<and> str ''12'' \<noteq> str ''123''"
    by (simp add: str_def)
  have h: "toStr (JNum 123) = Inr (str ''123'') \<and> toLowerCase (str ''123'') = Inr (str ''123'')
      \<and> prefix (str ''12'') (str ''123'') \<and> str ''12'' \<noteq> str ''123''"
    by (intro conjI n r6 pre [THEN conjunct1] pre [THEN conjunct2])
  note r7 = T [THEN conjunct2, THEN conjunct2, THEN conjunct2, THEN conjunct2,
      THEN conjunct2, THEN conjunct2, THEN mp, OF h]
  show ?thesis
    by (intro conjI r1 n r7 [THEN conjunct1] r7 [THEN conjunct2])
qed

section \<open>The acronym test\<close>

lemma stringsByCharOrder_not_acronym: "stringsByCharOrder t q \<noteq> acronym matchRankMap"
  by (simp add: stringsByCharOrder_subseq matchRankMap_def)

text \<open>
  Claim C6. The acronym of a string is the concatenation, in order, of the first
  character of every non-empty sub-word got by splitting on spaces and then on
  hyphens. When the first six tests of the decision procedure fail (the query is
  not longer than the candidate, not equal to it, not a prefix of it, not found
  after a space nor anywhere in it, and not one character long), the rank is
  \<open>acronym\<close> exactly when the acronym of the lowercased candidate contains the
  lowercased query.
\<close>

theorem acronym_tier:
  assumes "toStr c = Inr ts" and "toStr v = Inr qs"
    and "toLowerCase ts = Inr t" and "toLowerCase qs = Inr q"
    and "\<not> length t < length q" and "t \<noteq> q" and "\<not> prefix q t"
    and "\<not> sublist (32 # q) t" and "\<not> sublist q t" and "length q \<noteq> 1"
  shows "getAcronym s =
           map hd (filter (\<lambda>w. w \<noteq> []) (concat (map (split 45) (split 32 s))))
     \<and> (getMatchRanking c v = Inr (acronym matchRankMap) \<longleftrightarrow> sublist q (getAcronym t))"
proof -
  have a: "getAcronym s =
      map hd (filter (\<lambda>w. w \<noteq> []) (concat (map (split 45) (split 32 s))))"
    by (simp only: getAcronym_concat first_chars)
  have "getMatchRanking c v = getMatchRanking (JStr ts) (JStr qs)"
    using assms(1,2) by (rule getMatchRanking_coerce)
  also have "\<dots> = Inr (if sublist q (getAcronym t) then acronym matchRankMap
                        else stringsByCharOrder t q)"
    unfolding getMatchRanking_str [OF assms(3,4)] using assms(5-) by simp
  finally have "getMatchRanking c v = Inr (acronym matchRankMap) \<longleftrightarrow> sublist q (getAcronym t)"
    by (simp add: stringsByCharOrder_not_acronym)
  with a show ?thesis by (rule conjI)
qed

theorem acronym_tier_witness:
  "getAcronym (str ''ab-cd  ef'') = str ''ace''
   \<and> getMatchRanking (JStr (str ''Ab-cd  EF'')) (JStr (str ''aCe'')) = Inr (acronym matchRankMap)"
proof -
  have l: "toLowerCase (str ''Ab-cd  EF'') = Inr (str ''ab-cd  ef'')"
    "toLowerCase (str ''aCe'') = Inr (str ''ace'')"
    by code_simp+
  have h: "\<not> length (str ''ab-cd  ef'') < length (str ''ace'')"
    "str ''ab-cd  ef'' \<noteq> str ''ace''"
    "\<not> prefix (str ''ace'') (str ''ab-cd  ef'')"
    "\<not> sublist (32 # str ''ace'') (str ''ab-cd  ef'')"
    "\<not> sublist (str ''ace'') (str ''ab-cd  ef'')" "length (str ''ace'') \<noteq> 1"
    by code_simp+
  have g: "getAcronym (str ''ab-cd  ef'') = str ''ace''"
    by code_simp
  note T = acronym_tier [OF toStr.simps(5) toStr.simps(5) l h, of "str ''ab-cd  ef''"]
  have s: "sublist (str ''ace'') (getAcronym (str ''ab-cd  ef''))"
    by (simp add: g)
  from T [THEN conjunct2] s
  have "getMatchRanking (JStr (str ''Ab-cd  EF'')) (JStr (str ''aCe'')) = Inr (acronym matchRankMap)"
    by (rule iffD2)
  with g show ?thesis by (rule conjI)
qed

section \<open>The in-order subsequence test\<close>

text \<open>
  Claim C7. When the first seven tests fail (those of C6, and the acronym does not
  contain the query), the rank is \<open>matches\<close> exactly when the lowercased query is a
  subsequence of the lowercased candidate, and \<open>noMatch\<close> otherwise. It is the
  result of the cursor loop started at position 0, in which each step finds the
  first occurrence of the wanted character at or after the cursor and moves the
  cursor just past it, or reports failure and leaves the cursor.
\<close>

theorem in_order_subsequence:
  assumes "toStr c = Inr ts" and "toStr v = Inr qs"
    and "toLowerCase ts = Inr t" and "toLowerCase qs = Inr q"
    and "\<not> length t < length q" and "t \<noteq> q" and "\<not> prefix q t"
    and "\<not> sublist (32 # q) t" and "\<not> sublist q t" and "length q \<noteq> 1"
    and "\<not> sublist q (getAcronym t)"
  shows "getMatchRanking c v =
           Inr (if subseq q t then matches matchRankMap else noMatch matchRankMap)
     \<and> getMatchRanking c v = Inr (stringsByCharOrder_loop t q 0 0)
     \<and> (findMatchingCharacter m t cur = (found, cur') \<longrightarrow>
          (if found
           then cur < cur' \<and> cur' \<le> length t \<and> t ! (cur' - 1) = m
                \<and> (\<forall>k. cur \<le> k \<and> k < cur' - 1 \<longrightarrow> t ! k \<noteq> m)
           else cur' = cur \<and> (\<forall>k. cur \<le> k \<and> k < length t \<longrightarrow> t ! k \<noteq> m)))"
proof -
  have "getMatchRanking c v = getMatchRanking (JStr ts) (JStr qs)"
    using assms(1,2) by (rule getMatchRanking_coerce)
  also have "\<dots> = Inr (stringsByCharOrder t q)"
    unfolding getMatchRanking_str [OF assms(3,4)] using assms(5-) by simp
  finally have r: "getMatchRanking c v = Inr (stringsByCharOrder t q)" .
  have a: "getMatchRanking c v =
           Inr (if subseq q t then matches matchRankMap else noMatch matchRankMap)"
    using r by (simp only: stringsByCharOrder_subseq)
  have b: "getMatchRanking c v = Inr (stringsByCharOrder_loop t q 0 0)"
    using r by (simp only: stringsByCharOrder_def)
  have d: "findMatchingCharacter m t cur = (found, cur') \<longrightarrow>
          (if found
           then cur < cur' \<and> cur' \<le> length t \<and> t ! (cur' - 1) = m
                \<and> (\<forall>k. cur \<le> k \<and> k < cur' - 1 \<longrightarrow> t ! k \<noteq> m)
           else cur' = cur \<and> (\<forall>k. cur \<le> k \<and> k < length t \<longrightarrow> t ! k \<noteq> m))"
    unfolding findMatchingCharacter_def
    by (intro impI) (rule findMatchingCharacter_loop_first [OF order_refl])
  show ?thesis by (intro conjI a b d)
qed

theorem in_order_subsequence_witness:
  "getMatchRanking (JStr (str ''aXbc'')) (JStr (str ''Ac'')) = Inr (matches matchRankMap)
   \<and> getMatchRanking (JStr (str ''aXbc'')) (JStr (str ''cA'')) = Inr (noMatch matchRankMap)"
proof -
  have l: "toLowerCase (str ''aXbc'') = Inr (str ''axbc'')"
    and l2: "toLowerCase (str ''Ac'') = Inr (str ''ac'')"
    and l3: "toLowerCase (str ''cA'') = Inr (str ''ca'')"
    by code_simp+
  have h: "\<not> length (str ''axbc'') < length (str ''ac'')" "str ''axbc'' \<noteq> str ''ac''"
    "\<not> prefix (str ''ac'') (str ''axbc'')" "\<not> sublist (32 # str ''ac'') (str ''axbc'')"
    "\<not> sublist (str ''ac'') (str ''axbc'')" "length (str ''ac'') \<noteq> 1"
    "\<not> sublist (str ''ac'') (getAcronym (str ''axbc''))"
    by code_simp+
  have h': "\<not> length (str ''axbc'') < length (str ''ca'')" "str ''axbc'' \<noteq> str ''ca''"
    "\<not> prefix (str ''ca'') (str ''axbc'')" "\<not> sublist (32 # str ''ca'') (str ''axbc'')"
    "\<not> sublist (str ''ca'') (str ''axbc'')" "length (str ''ca'') \<noteq> 1"
    "\<not> sublist (str ''ca'') (getAcronym (str ''axbc''))"
    by code_simp+
  have s: "subseq (str ''ac'') (str ''axbc'')" "\<not> subseq (str ''ca'') (str ''axbc'')"
    by (simp_all add: str_def)
  note T1 = in_order_subsequence [OF toStr.simps(5) toStr.simps(5) l l2 h, THEN conjunct1]
  note T2 = in_order_subsequence [OF toStr.simps(5) toStr.simps(5) l l3 h', THEN conjunct1]
  show ?thesis
    using T1 T2 s by (simp only: if_True if_False simp_thms)
qed

section \<open>The selector list: absent or empty\<close>

lemma reduce_unchanged:
  "(\<And>x i. f acc x i = Inr acc) \<Longrightarrow> reduce f acc xs i = Inr acc"
  by (induction xs arbitrary: i) simp_all

text \<open>
  Claim C2, as stated, fails: with the empty selector list the result is not the
  rank of the item's own text.
\<close>

theorem empty_selector_list_counterexample:
  "getMatchRanking (JStr (str ''a'')) (JStr (str ''a'')) = Inr 5
   \<and> getHighestRanking (JStr (str ''a'')) (Some []) (JStr (str ''a''))
       \<noteq> Inr \<lparr>rank = 5, keyIndex = - 1\<rparr>
   \<and> matchSorter [JStr (str ''a'')] (JStr (str ''a'')) \<lparr>keys = Some []\<rparr> = Inr []
   \<and> matchSorter [JStr (str ''a'')] (JStr (str ''a'')) default_options = Inr [JStr (str ''a'')]"
  by code_simp

text \<open>
  Claim C2, amended. When no selector list is supplied, \<open>getHighestRanking\<close> returns
  the rank of the item's own text with selector index \<open>-1\<close>. When the supplied
  list is empty it returns \<open>noMatch\<close> with selector index \<open>-1\<close> for every item and
  query, so \<open>matchSorter\<close> with \<open>keys\<close> equal to the empty list returns the empty
  output.
\<close>

theorem selector_list_absent_or_empty:
  "(getMatchRanking it value = Inr r \<longrightarrow>
      getHighestRanking it None value = Inr \<lparr>rank = r, keyIndex = - 1\<rparr>)
   \<and> getHighestRanking it (Some []) value = Inr \<lparr>rank = noMatch matchRankMap, keyIndex = - 1\<rparr>
   \<and> matchSorter items value \<lparr>keys = Some []\<rparr> = Inr []"
proof -
  have a: "getMatchRanking it value = Inr r \<longrightarrow>
      getHighestRanking it None value = Inr \<lparr>rank = r, keyIndex = - 1\<rparr>"
    by (simp add: getHighestRanking_def)
  have b: "getHighestRanking it (Some []) value = Inr \<lparr>rank = noMatch matchRankMap, keyIndex = - 1\<rparr>" for it
    by (simp add: getHighestRanking_def)
  have "reduceItemsToRanked (Some []) value [] x i = Inr []" for x i
    by (simp add: reduceItemsToRanked_def b)
  then have "reduce (reduceItemsToRanked (Some []) value) [] items 0 = Inr []"
    by (rule reduce_unchanged)
  then have c: "matchSorter items value \<lparr>keys = Some []\<rparr> = Inr []"
    by (simp add: matchSorter_def)
  show ?thesis by (intro conjI a b c)
qed

theorem selector_list_absent_or_empty_witness:
  "getMatchRanking (JStr (str ''a'')) (JStr (str ''a'')) = Inr 5
   \<and> getHighestRanking (JStr (str ''a'')) None (JStr (str ''a'')) = Inr \<lparr>rank = 5, keyIndex = - 1\<rparr>"
proof -
  have h: "getMatchRanking (JStr (str ''a'')) (JStr (str ''a'')) = Inr 5"
    by code_simp
  from h selector_list_absent_or_empty [THEN conjunct1, THEN mp, OF h]
  show ?thesis by (rule conjI)
qed

section \<open>A selector that finds no field\<close>

lemma undefined_lower: "toLowerCase (str ''undefined'') = Inr (str ''undefined'')"
  by code_simp

lemma undefined_acronym: "getAcronym (str ''undefined'') = [117]"
  by code_simp

lemma subseq_single: "subseq [c] s \<longleftrightarrow> c \<in> set s"
  by (induction s) auto

lemma sublist_ConsD: "sublist (c # q) t \<Longrightarrow> sublist q t"
proof -
  assume "sublist (c # q) t"
  then obtain ps ss where "t = ps @ (c # q) @ ss"
    by (auto simp: sublist_def)
  then have "t = (ps @ [c]) @ q @ ss" by simp
  then show ?thesis unfolding sublist_def by blast
qed

lemma rank_undefined:
  assumes "toStr value = Inr qs" and "toLowerCase qs = Inr q"
  shows "\<exists>r. getMatchRanking JUndefined value = Inr r
     \<and> (r = noMatch matchRankMap \<longleftrightarrow> \<not> subseq q (str ''undefined''))"
proof -
  define u where "u = str ''undefined''"
  have "getMatchRanking JUndefined value = getMatchRanking (JStr u) (JStr qs)"
    using _ assms(1) by (rule getMatchRanking_coerce) (simp add: u_def)
  then obtain r where r: "getMatchRanking JUndefined value = Inr r"
    and v: "r = (if length u < length q then noMatch matchRankMap
         else if u = q then equals matchRankMap
         else if prefix q u then startsWith matchRankMap
         else if sublist (32 # q) u then wordStartsWith matchRankMap
         else if sublist q u then contains matchRankMap
         else if length q = 1 then noMatch matchRankMap
         else if sublist q [117] then acronym matchRankMap
         else stringsByCharOrder u q)"
    using getMatchRanking_str [OF undefined_lower assms(2)]
    by (simp add: u_def undefined_acronym)
  have 1: "length u < length q \<Longrightarrow> \<not> subseq q u"
    using list_emb_length [of "(=)" q u] by auto
  have 2: "prefix q u \<Longrightarrow> subseq q u"
    by (rule prefix_imp_subseq)
  have 3: "sublist q u \<Longrightarrow> subseq q u"
    by (rule sublist_imp_subseq)
  have 4: "sublist (32 # q) u \<Longrightarrow> sublist q u"
    by (rule sublist_ConsD)
  have 5: "length q = 1 \<Longrightarrow> \<not> sublist q u \<Longrightarrow> \<not> subseq q u"
    by (cases q) (simp_all add: subseq_single sublist_single del: subseq_Cons2_iff)
  have 6: "sublist q [117] \<Longrightarrow> q = [] \<or> length q = 1"
    by (cases q) (auto dest: sublist_length_le)
  have "r = noMatch matchRankMap \<longleftrightarrow> \<not> subseq q u"
    unfolding v using 1 2 3 4 5 6
    by (auto simp: stringsByCharOrder_subseq matchRankMap_def simp del: subseq_Cons2_iff)
  with r show ?thesis unfolding u_def by blast
qed

text \<open>
  Claim C1, as stated, fails: a record without the field named by the selector is
  ranked \<open>equals\<close> on that selector for the query \<open>'undefined'\<close>, where empty text
  would be ranked \<open>noMatch\<close>, and the record is returned.
\<close>

theorem absent_field_counterexample:
  "getProp (JObj []) (str ''name'') = Inr JUndefined
   \<and> getHighestRanking (JObj []) (Some [str ''name'']) (JStr (str ''undefined''))
       = Inr \<lparr>rank = 5, keyIndex = 0\<rparr>
   \<and> getMatchRanking (JStr []) (JStr (str ''undefined'')) = Inr (- 1)
   \<and> matchSorter [JObj []] (JStr (str ''undefined'')) \<lparr>keys = Some [str ''name'']\<rparr>
       = Inr [JObj []]"
  by code_simp

text \<open>
  Claim C1, amended. If the selector at position \<open>i\<close> resolves to an absent field of
  the item (the property read yields \<open>undefined\<close>: the item has no field of that
  name and inherits no member of that name) and the query has a rendering, that
  step of \<open>getHighestRanking\<close> raises no error and classifies the missing field as
  the text \<open>undefined\<close>: the selector contributes the rank of \<open>'undefined'\<close> against
  the query, which is \<open>noMatch\<close> exactly when the lowercased query is not an
  in-order subsequence of \<open>undefined\<close>.
\<close>

theorem absent_field_as_undefined_text:
  assumes "getProp it key = Inr JUndefined"
    and "toStr value = Inr qs" and "toLowerCase qs = Inr q"
  shows "\<exists>r. getMatchRanking (JStr (str ''undefined'')) value = Inr r
     \<and> rankKey it value acc key i =
         Inr (if rank acc < r then \<lparr>rank = r, keyIndex = int i\<rparr> else acc)
     \<and> (r = noMatch matchRankMap \<longleftrightarrow> \<not> subseq q (str ''undefined''))"
proof -
  from rank_undefined [OF assms(2,3)] obtain r
    where r: "getMatchRanking JUndefined value = Inr r"
      and n: "r = noMatch matchRankMap \<longleftrightarrow> \<not> subseq q (str ''undefined'')"
    by blast
  have "getMatchRanking (JStr (str ''undefined'')) value = getMatchRanking JUndefined value"
    by (simp add: getMatchRanking_def)
  with r have s: "getMatchRanking (JStr (str ''undefined'')) value = Inr r"
    by simp
  have k: "rankKey it value acc key i =
         Inr (if rank acc < r then \<lparr>rank = r, keyIndex = int i\<rparr> else acc)"
    using assms(1) r by (simp add: rankKey_def)
  from s k n show ?thesis by blast
qed

theorem absent_field_as_undefined_text_witness:
  "getProp (JObj [(str ''id'', JNum 1)]) (str ''name'') = Inr JUndefined
   \<and> toLowerCase (str ''Unfed'') = Inr (str ''unfed'')
   \<and> (\<exists>r. rankKey (JObj [(str ''id'', JNum 1)]) (JStr (str ''Unfed''))
             \<lparr>rank = - 1, keyIndex = - 1\<rparr> (str ''name'') 2
            = Inr \<lparr>rank = r, keyIndex = 2\<rparr> \<and> r \<noteq> - 1)"
proof -
  have h1: "getProp (JObj [(str ''id'', JNum 1)]) (str ''name'') = Inr JUndefined"
    by code_simp
  have l: "toLowerCase (str ''Unfed'') = Inr (str ''unfed'')"
    by code_simp
  have sub: "subseq (str ''unfed'') (str ''undefined'')"
    by (simp add: str_def)
  from absent_field_as_undefined_text [OF h1 toStr.simps(5) l,
      of "\<lparr>rank = - 1, keyIndex = - 1\<rparr>" 2]
  obtain r where k: "rankKey (JObj [(str ''id'', JNum 1)]) (JStr (str ''Unfed''))
             \<lparr>rank = - 1, keyIndex = - 1\<rparr> (str ''name'') 2
            = Inr (if rank \<lparr>rank = - 1, keyIndex = - 1\<rparr> < r then \<lparr>rank = r, keyIndex = int 2\<rparr>
                   else \<lparr>rank = - 1, keyIndex = - 1\<rparr>)"
    and n: "r = noMatch matchRankMap \<longleftrightarrow> \<not> subseq (str ''unfed'') (str ''undefined'')"
    and g: "getMatchRanking (JStr (str ''undefined'')) (JStr (str ''Unfed'')) = Inr r"
    by blast
  from n sub have ne: "r \<noteq> - 1"
    by (simp add: matchRankMap_def)
  have "getMatchRanking (JStr (str ''undefined'')) (JStr (str ''Unfed'')) = Inr 0"
    by code_simp
  with g have "r = 0" by simp
  with k have "rankKey (JObj [(str ''id'', JNum 1)]) (JStr (str ''Unfed''))
             \<lparr>rank = - 1, keyIndex = - 1\<rparr> (str ''name'') 2 = Inr \<lparr>rank = r, keyIndex = 2\<rparr>"
    by simp
  with ne h1 l show ?thesis by blast
qed

section \<open>The comparator and the sort\<close>

lemma sortRankedItems_values: "sortRankedItems a b = - 1 \<or> sortRankedItems a b = 1"
  by (simp add: sortRankedItems_def Let_def)

lemma sortRankedItems_policy: "sortRankedItems a b \<le> 0 \<longleftrightarrow> order_policy a b"
  by (auto simp: sortRankedItems_def order_policy_def Let_def)

lemma order_policy_irrefl: "\<not> order_policy a a"
  by (simp add: order_policy_def)

lemma order_policy_trans: "order_policy a b \<Longrightarrow> order_policy b c \<Longrightarrow> order_policy a c"
  by (auto simp: order_policy_def)

lemma order_policy_asym: "order_policy a b \<Longrightarrow> \<not> order_policy b a"
  by (auto simp: order_policy_def)

lemma order_policy_total: "index a \<noteq> index b \<Longrightarrow> order_policy a b \<or> order_policy b a"
  by (auto simp: order_policy_def)

lemma set_insert_cmp: "set (insert_cmp cmp x ys) = insert x (set ys)"
  by (induction ys) auto

lemma mset_insert_cmp: "mset (insert_cmp cmp x ys) = add_mset x (mset ys)"
  by (induction ys) auto

lemma mset_array_sort: "mset (array_sort cmp xs) = mset xs"
  by (induction xs) (simp_all add: mset_insert_cmp)

lemma set_array_sort: "set (array_sort cmp xs) = set xs"
  using mset_array_sort [of cmp xs] by (metis set_mset_mset)

lemma sorted_insert_cmp:
  "sorted_wrt order_policy ys \<Longrightarrow> \<forall>y\<in>set ys. index y \<noteq> index x \<Longrightarrow>
   sorted_wrt order_policy (insert_cmp sortRankedItems x ys)"
proof (induction ys)
  case Nil
  show ?case by simp
next
  case (Cons y ys)
  show ?case
  proof (cases "order_policy x y")
    case True
    with Cons.prems show ?thesis
      by (auto simp: sortRankedItems_policy intro: order_policy_trans)
  next
    case False
    with Cons.prems have "order_policy y x"
      using order_policy_total [of y x] by auto
    with False Cons show ?thesis
      by (auto simp: sortRankedItems_policy set_insert_cmp)
  qed
qed

lemma sorted_array_sort:
  "distinct (map index xs) \<Longrightarrow> sorted_wrt order_policy (array_sort sortRankedItems xs)"
proof (induction xs)
  case Nil
  show ?case by simp
next
  case (Cons x xs)
  from Cons.prems have "\<forall>y\<in>set (array_sort sortRankedItems xs). index y \<noteq> index x"
    by (auto simp: set_array_sort image_iff)
  with Cons show ?case
    by (simp add: sorted_insert_cmp)
qed

lemma insert_cmp_sorted:
  "sorted_wrt order_policy (x # ys) \<Longrightarrow> insert_cmp sortRankedItems x ys = x # ys"
  by (cases ys) (simp_all add: sortRankedItems_policy)

lemma array_sort_sorted:
  "sorted_wrt order_policy xs \<Longrightarrow> array_sort sortRankedItems xs = xs"
proof (induction xs)
  case Nil
  show ?case by simp
next
  case (Cons x xs)
  then have "array_sort sortRankedItems xs = xs" by simp
  with Cons.prems show ?case
    using insert_cmp_sorted [of x xs] by simp
qed

text \<open>Two lists with the same elements, both in the order of the policy, are equal.\<close>

lemma order_policy_unique:
  "sorted_wrt order_policy xs \<Longrightarrow> sorted_wrt order_policy ys \<Longrightarrow> mset xs = mset ys \<Longrightarrow>
   xs = ys"
proof (induction xs arbitrary: ys)
  case Nil
  then show ?case by simp
next
  case (Cons x xs)
  from Cons.prems(3) obtain y ys' where ys: "ys = y # ys'"
    by (cases ys) auto
  have "x = y"
  proof (rule ccontr)
    assume ne: "x \<noteq> y"
    have "x \<in> set ys" using Cons.prems(3) by (metis list.set_intros(1) set_mset_mset)
    with ne ys have "x \<in> set ys'" by simp
    with Cons.prems(2) ys have 1: "order_policy y x" by simp
    have "y \<in> set (x # xs)" using Cons.prems(3) ys by (metis list.set_intros(1) set_mset_mset)
    with ne have "y \<in> set xs" by simp
    with Cons.prems(1) have "order_policy x y" by simp
    with 1 show False using order_policy_asym by blast
  qed
  moreover from this Cons.prems ys have "xs = ys'"
    by (intro Cons.IH) simp_all
  ultimately show ?case using ys by simp
qed

text \<open>
  Any permutation of the matched records that respects the comparator is the
  result of \<open>array_sort\<close>, so the sort algorithm of the engine does not matter.
\<close>

lemma array_sort_unique:
  assumes "distinct (map index ms)" and "mset rs = mset ms"
    and "sorted_wrt (\<lambda>a b. sortRankedItems a b < 0) rs"
  shows "rs = array_sort sortRankedItems ms"
proof -
  have "sorted_wrt order_policy rs"
    using assms(3) sortRankedItems_values
    by (rule_tac sorted_wrt_mono_rel [of rs "\<lambda>a b. sortRankedItems a b < 0"])
       (auto simp flip: sortRankedItems_policy)
  moreover have "sorted_wrt order_policy (array_sort sortRankedItems ms)"
    using assms(1) by (rule sorted_array_sort)
  moreover have "mset rs = mset (array_sort sortRankedItems ms)"
    using assms(2) by (simp add: mset_array_sort)
  ultimately show ?thesis by (rule order_policy_unique)
qed

lemma stable_within_class:
  assumes "sorted_wrt (\<lambda>a b. index a < index b) ms"
  shows "filter (\<lambda>r. rank r = k \<and> keyIndex r = j) (array_sort sortRankedItems ms)
       = filter (\<lambda>r. rank r = k \<and> keyIndex r = j) ms"
proof (rule order_policy_unique)
  have "sorted_wrt (<) (map index ms)"
    using assms by (simp add: sorted_wrt_map)
  then have "distinct (map index ms)"
    by (simp add: strict_sorted_iff)
  then have "sorted_wrt order_policy (array_sort sortRankedItems ms)"
    by (rule sorted_array_sort)
  then show "sorted_wrt order_policy (filter (\<lambda>r. rank r = k \<and> keyIndex r = j) (array_sort sortRankedItems ms))"
    by (rule sorted_wrt_filter)
  have "sorted_wrt (\<lambda>a b. index a < index b) (filter (\<lambda>r. rank r = k \<and> keyIndex r = j) ms)"
    using assms by (rule sorted_wrt_filter)
  then show "sorted_wrt order_policy (filter (\<lambda>r. rank r = k \<and> keyIndex r = j) ms)"
    by (rule sorted_wrt_mono_rel [rotated]) (auto simp: order_policy_def)
  show "mset (filter (\<lambda>r. rank r = k \<and> keyIndex r = j) (array_sort sortRankedItems ms))
      = mset (filter (\<lambda>r. rank r = k \<and> keyIndex r = j) ms)"
    by (simp add: mset_filter mset_array_sort del: filter_mset_True)
qed

section \<open>The matched records of one call\<close>

lemma reduceItemsToRanked_Inr:
  assumes "reduceItemsToRanked ks v acc x i = Inr acc'"
  shows "\<exists>hr. getHighestRanking x ks v = Inr hr
     \<and> acc' = (if noMatch matchRankMap < rank hr
               then acc @ [\<lparr>rank = rank hr, keyIndex = keyIndex hr, item = x, index = i\<rparr>]
               else acc)"
  using assms by (auto simp: reduceItemsToRanked_def split: sum.splits)

lemma reduce_ranked:
  assumes "reduce (reduceItemsToRanked ks v) acc items i = Inr ms"
  shows "\<exists>new. ms = acc @ new
     \<and> sorted_wrt (\<lambda>a b. index a < index b) new
     \<and> (\<forall>r\<in>set new. i \<le> index r \<and> index r < i + length items
           \<and> item r = items ! (index r - i)
           \<and> getHighestRanking (item r) ks v = Inr \<lparr>rank = rank r, keyIndex = keyIndex r\<rparr>
           \<and> noMatch matchRankMap < rank r)"
  using assms
proof (induction items arbitrary: acc i)
  case Nil
  then show ?case by simp
next
  case (Cons x xs)
  from Cons.prems obtain acc' where
    step: "reduceItemsToRanked ks v acc x i = Inr acc'"
    and rest: "reduce (reduceItemsToRanked ks v) acc' xs (Suc i) = Inr ms"
    by (auto split: sum.splits)
  from reduceItemsToRanked_Inr [OF step] obtain hr where
    hr: "getHighestRanking x ks v = Inr hr"
    and acc': "acc' = (if noMatch matchRankMap < rank hr
               then acc @ [\<lparr>rank = rank hr, keyIndex = keyIndex hr, item = x, index = i\<rparr>]
               else acc)"
    by blast
  from Cons.IH [OF rest] obtain new where
    ms: "ms = acc' @ new"
    and srt: "sorted_wrt (\<lambda>a b. index a < index b) new"
    and each: "\<forall>r\<in>set new. Suc i \<le> index r \<and> index r < Suc i + length xs
           \<and> item r = xs ! (index r - Suc i)
           \<and> getHighestRanking (item r) ks v = Inr \<lparr>rank = rank r, keyIndex = keyIndex r\<rparr>
           \<and> noMatch matchRankMap < rank r"
    by blast
  have each': "\<forall>r\<in>set new. i \<le> index r \<and> index r < i + length (x # xs)
           \<and> item r = (x # xs) ! (index r - i)
           \<and> getHighestRanking (item r) ks v = Inr \<lparr>rank = rank r, keyIndex = keyIndex r\<rparr>
           \<and> noMatch matchRankMap < rank r"
  proof
    fix r assume "r \<in> set new"
    with each have e: "Suc i \<le> index r" "index r < Suc i + length xs"
      "item r = xs ! (index r - Suc i)"
      "getHighestRanking (item r) ks v = Inr \<lparr>rank = rank r, keyIndex = keyIndex r\<rparr>"
      "noMatch matchRankMap < rank r"
      by auto
    from e(1) have "index r - i = Suc (index r - Suc i)" by simp
    with e show "i \<le> index r \<and> index r < i + length (x # xs)
           \<and> item r = (x # xs) ! (index r - i)
           \<and> getHighestRanking (item r) ks v = Inr \<lparr>rank = rank r, keyIndex = keyIndex r\<rparr>
           \<and> noMatch matchRankMap < rank r"
      by simp
  qed
  show ?case
  proof (cases "noMatch matchRankMap < rank hr")
    case True
    let ?r = "\<lparr>rank = rank hr, keyIndex = keyIndex hr, item = x, index = i\<rparr>"
    have "ms = acc @ (?r # new)"
      using ms acc' True by simp
    moreover have "sorted_wrt (\<lambda>a b. index a < index b) (?r # new)"
      using srt each by auto
    moreover have "\<forall>r\<in>set (?r # new). i \<le> index r \<and> index r < i + length (x # xs)
           \<and> item r = (x # xs) ! (index r - i)
           \<and> getHighestRanking (item r) ks v = Inr \<lparr>rank = rank r, keyIndex = keyIndex r\<rparr>
           \<and> noMatch matchRankMap < rank r"
    proof
      fix r assume "r \<in> set (?r # new)"
      then consider "r = ?r" | "r \<in> set new" by auto
      then show "i \<le> index r \<and> index r < i + length (x # xs)
           \<and> item r = (x # xs) ! (index r - i)
           \<and> getHighestRanking (item r) ks v = Inr \<lparr>rank = rank r, keyIndex = keyIndex r\<rparr>
           \<and> noMatch matchRankMap < rank r"
      proof cases
        case 1
        with hr True show ?thesis by simp
      next
        case 2
        with each' show ?thesis by blast
      qed
    qed
    ultimately show ?thesis by blast
  next
    case False
    with ms acc' have "ms = acc @ new" by simp
    with srt each' show ?thesis by blast
  qed
qed

lemma reduce_ranked_total:
  "reduce (reduceItemsToRanked ks v) acc items i = Inr ms \<Longrightarrow> x \<in> set items \<Longrightarrow>
   \<exists>hr. getHighestRanking x ks v = Inr hr"
proof (induction items arbitrary: acc i)
  case Nil
  then show ?case by simp
next
  case (Cons y ys)
  from Cons.prems(1) obtain acc' where
    step: "reduceItemsToRanked ks v acc y i = Inr acc'"
    and rest: "reduce (reduceItemsToRanked ks v) acc' ys (Suc i) = Inr ms"
    by (auto split: sum.splits)
  show ?case
  proof (cases "x = y")
    case True
    with reduceItemsToRanked_Inr [OF step] show ?thesis by blast
  next
    case False
    with Cons.prems(2) have "x \<in> set ys" by simp
    with Cons.IH [OF rest] show ?thesis by blast
  qed
qed

lemma reduce_ranked_complete:
  assumes "reduce (reduceItemsToRanked ks v) acc items i = Inr ms"
    and "j < length items"
    and "getHighestRanking (items ! j) ks v = Inr hr"
    and "noMatch matchRankMap < rank hr"
  shows "\<exists>r\<in>set ms. index r = i + j \<and> item r = items ! j
           \<and> rank r = rank hr \<and> keyIndex r = keyIndex hr"
  using assms
proof (induction items arbitrary: acc i j)
  case Nil
  then show ?case by simp
next
  case (Cons x xs)
  from Cons.prems(1) obtain acc' where
    step: "reduceItemsToRanked ks v acc x i = Inr acc'"
    and rest: "reduce (reduceItemsToRanked ks v) acc' xs (Suc i) = Inr ms"
    by (auto split: sum.splits)
  show ?case
  proof (cases j)
    case 0
    with Cons.prems(3,4) reduceItemsToRanked_Inr [OF step]
    have "acc' = acc @ [\<lparr>rank = rank hr, keyIndex = keyIndex hr, item = x, index = i\<rparr>]"
      by auto
    moreover from reduce_ranked [OF rest] obtain new where "ms = acc' @ new"
      by blast
    ultimately have "\<lparr>rank = rank hr, keyIndex = keyIndex hr, item = x, index = i\<rparr> \<in> set ms"
      by simp
    with 0 show ?thesis by force
  next
    case (Suc j')
    with Cons.prems have "j' < length xs" "getHighestRanking (xs ! j') ks v = Inr hr"
      by simp_all
    from Cons.IH [OF rest this Cons.prems(4)] Suc show ?thesis
      by simp
  qed
qed

text \<open>Ranking again a list of items that all matched.\<close>

lemma reduce_rerank:
  assumes "\<forall>r\<in>set rs. getHighestRanking (item r) ks v = Inr \<lparr>rank = rank r, keyIndex = keyIndex r\<rparr>
              \<and> noMatch matchRankMap < rank r"
  shows "reduce (reduceItemsToRanked ks v) acc (map item rs) i
       = Inr (acc @ map2 (\<lambda>j r. r\<lparr>index := j\<rparr>) [i..<i + length rs] rs)"
  using assms
proof (induction rs arbitrary: acc i)
  case Nil
  show ?case by simp
next
  case (Cons r rs)
  have r: "\<lparr>rank = rank r, keyIndex = keyIndex r, item = item r, index = i\<rparr> = r\<lparr>index := i\<rparr>"
    by (cases r) simp
  have step: "reduceItemsToRanked ks v acc (item r) i = Inr (acc @ [r\<lparr>index := i\<rparr>])"
    using Cons.prems by (simp add: reduceItemsToRanked_def r)
  have u: "[i..<i + length (r # rs)] = i # [Suc i..<Suc i + length rs]"
    by (subst upt_rec) simp
  from Cons.prems have "\<forall>r\<in>set rs. getHighestRanking (item r) ks v = Inr \<lparr>rank = rank r, keyIndex = keyIndex r\<rparr>
              \<and> noMatch matchRankMap < rank r"
    by simp
  from Cons.IH [OF this, of "acc @ [r\<lparr>index := i\<rparr>]" "Suc i"] step show ?case
    unfolding u by simp
qed

lemma sorted_renumbered:
  assumes "sorted_wrt order_policy rs"
  shows "sorted_wrt order_policy (map2 (\<lambda>j r. r\<lparr>index := j\<rparr>) [i..<i + length rs] rs)"
proof -
  have "order_policy ((rs ! a)\<lparr>index := i + a\<rparr>) ((rs ! b)\<lparr>index := i + b\<rparr>)"
    if "a < b" "b < length rs" for a b
  proof -
    from assms that have "order_policy (rs ! a) (rs ! b)"
      by (simp add: sorted_wrt_iff_nth_less)
    with that(1) show ?thesis
      by (auto simp: order_policy_def)
  qed
  then show ?thesis
    by (auto simp: sorted_wrt_iff_nth_less)
qed

section \<open>The order of the output\<close>

lemma item_renumbered:
  "map item (map2 (\<lambda>j r. r\<lparr>index := j\<rparr>) [i..<i + length rs] rs) = map item rs"
  by (rule nth_equalityI) simp_all

lemma matchSorter_Inr:
  "matchSorter items value opts = Inr out \<longleftrightarrow>
     (\<exists>ms. reduce (reduceItemsToRanked (keys opts) value) [] items 0 = Inr ms
        \<and> out = map item (array_sort sortRankedItems ms))"
  by (auto simp: matchSorter_def split: sum.splits)

lemma sortRankedItems_flip:
  "index a \<noteq> index b \<Longrightarrow> sortRankedItems a b = - sortRankedItems b a"
  by (auto simp: sortRankedItems_def Let_def)

text \<open>
  Claim C3. The comparator never answers 0, answers oppositely when two records of
  different input index are swapped, and puts \<open>a\<close> first exactly when the order
  policy does: higher rank, then lower selector index, then lower input index. For
  the matched records \<open>ms\<close> of a call (each carrying the input index of its item,
  in increasing order) the output is the items of the permutation of \<open>ms\<close> that
  is ordered by the policy; the records of one rank and one selector index keep
  the order they have in the input. For \<open>['Foo1','Bar','Foo2']\<close> and the query
  \<open>'foo'\<close> the output is \<open>['Foo1','Foo2']\<close>.
\<close>

theorem order_of_output:
  "sortRankedItems a b \<noteq> 0
   \<and> (index a \<noteq> index b \<longrightarrow> sortRankedItems a b = - sortRankedItems b a)
   \<and> (sortRankedItems a b < 0 \<longleftrightarrow> order_policy a b)
   \<and> (reduce (reduceItemsToRanked (keys opts) value) [] items 0 = Inr ms \<longrightarrow>
        matchSorter items value opts = Inr (map item (array_sort sortRankedItems ms))
        \<and> mset (array_sort sortRankedItems ms) = mset ms
        \<and> sorted_wrt order_policy (array_sort sortRankedItems ms)
        \<and> sorted_wrt (\<lambda>r s. index r < index s) ms
        \<and> (\<forall>r\<in>set ms. index r < length items \<and> item r = items ! index r)
        \<and> (\<forall>k j. filter (\<lambda>r. rank r = k \<and> keyIndex r = j) (array_sort sortRankedItems ms)
                 = filter (\<lambda>r. rank r = k \<and> keyIndex r = j) ms))
   \<and> matchSorter [JStr (str ''Foo1''), JStr (str ''Bar''), JStr (str ''Foo2'')] (JStr (str ''foo'')) default_options
       = Inr [JStr (str ''Foo1''), JStr (str ''Foo2'')]"
proof -
  have c1: "sortRankedItems a b \<noteq> 0"
    using sortRankedItems_values [of a b] by auto
  have c2: "index a \<noteq> index b \<longrightarrow> sortRankedItems a b = - sortRankedItems b a"
    by (rule impI) (rule sortRankedItems_flip)
  have c3: "sortRankedItems a b < 0 \<longleftrightarrow> order_policy a b"
    using sortRankedItems_values [of a b] sortRankedItems_policy [of a b] by auto
  have c4: "reduce (reduceItemsToRanked (keys opts) value) [] items 0 = Inr ms \<longrightarrow>
        matchSorter items value opts = Inr (map item (array_sort sortRankedItems ms))
        \<and> mset (array_sort sortRankedItems ms) = mset ms
        \<and> sorted_wrt order_policy (array_sort sortRankedItems ms)
        \<and> sorted_wrt (\<lambda>r s. index r < index s) ms
        \<and> (\<forall>r\<in>set ms. index r < length items \<and> item r = items ! index r)
        \<and> (\<forall>k j. filter (\<lambda>r. rank r = k \<and> keyIndex r = j) (array_sort sortRankedItems ms)
                 = filter (\<lambda>r. rank r = k \<and> keyIndex r = j) ms)"
  proof (rule impI)
    assume red: "reduce (reduceItemsToRanked (keys opts) value) [] items 0 = Inr ms"
    from reduce_ranked [OF red] obtain new where
      new: "ms = [] @ new"
      and srt': "sorted_wrt (\<lambda>r s. index r < index s) new"
      and each': "\<forall>r\<in>set new. 0 \<le> index r \<and> index r < 0 + length items
           \<and> item r = items ! (index r - 0)
           \<and> getHighestRanking (item r) (keys opts) value
               = Inr \<lparr>rank = rank r, keyIndex = keyIndex r\<rparr>
           \<and> noMatch matchRankMap < rank r"
      by blast
    from new have eq: "new = ms" by simp
    from srt' have srt: "sorted_wrt (\<lambda>r s. index r < index s) ms"
      unfolding eq .
    have each: "\<forall>r\<in>set ms. index r < length items \<and> item r = items ! index r"
    proof
      fix r assume "r \<in> set ms"
      then have "r \<in> set new" unfolding eq .
      from bspec [OF each' this]
      show "index r < length items \<and> item r = items ! index r"
        by simp
    qed
    from srt have "sorted_wrt (<) (map index ms)"
      by (simp add: sorted_wrt_map)
    then have d: "distinct (map index ms)"
      by (simp add: strict_sorted_iff)
    have m: "matchSorter items value opts = Inr (map item (array_sort sortRankedItems ms))"
      using red by (simp add: matchSorter_def)
    show "matchSorter items value opts = Inr (map item (array_sort sortRankedItems ms))
        \<and> mset (array_sort sortRankedItems ms) = mset ms
        \<and> sorted_wrt order_policy (array_sort sortRankedItems ms)
        \<and> sorted_wrt (\<lambda>r s. index r < index s) ms
        \<and> (\<forall>r\<in>set ms. index r < length items \<and> item r = items ! index r)
        \<and> (\<forall>k j. filter (\<lambda>r. rank r = k \<and> keyIndex r = j) (array_sort sortRankedItems ms)
                 = filter (\<lambda>r. rank r = k \<and> keyIndex r = j) ms)"
      by (intro conjI allI m mset_array_sort sorted_array_sort [OF d] srt each
          stable_within_class [OF srt])
  qed
  have c5: "matchSorter [JStr (str ''Foo1''), JStr (str ''Bar''), JStr (str ''Foo2'')] (JStr (str ''foo'')) default_options
       = Inr [JStr (str ''Foo1''), JStr (str ''Foo2'')]"
    by code_simp
  show ?thesis
    by (intro conjI c1 c2 c3 c4 c5)
qed

theorem order_of_output_witness:
  "reduce (reduceItemsToRanked (keys default_options) (JStr (str ''a'')))
      [] [JStr (str ''xa''), JStr (str ''b''), JStr (str ''A''), JStr (str ''ya'')] 0
     = Inr [\<lparr>rank = 2, keyIndex = - 1, item = JStr (str ''xa''), index = 0\<rparr>,
            \<lparr>rank = 5, keyIndex = - 1, item = JStr (str ''A''), index = 2\<rparr>,
            \<lparr>rank = 2, keyIndex = - 1, item = JStr (str ''ya''), index = 3\<rparr>]
   \<and> matchSorter [JStr (str ''xa''), JStr (str ''b''), JStr (str ''A''), JStr (str ''ya'')] (JStr (str ''a'')) default_options
     = Inr [JStr (str ''A''), JStr (str ''xa''), JStr (str ''ya'')]"
proof -
  let ?ms = "[\<lparr>rank = 2, keyIndex = - 1, item = JStr (str ''xa''), index = 0\<rparr>,
            \<lparr>rank = 5, keyIndex = - 1, item = JStr (str ''A''), index = 2\<rparr>,
            \<lparr>rank = 2, keyIndex = - 1, item = JStr (str ''ya''), index = 3\<rparr>]"
  have h: "reduce (reduceItemsToRanked (keys default_options) (JStr (str ''a'')))
      [] [JStr (str ''xa''), JStr (str ''b''), JStr (str ''A''), JStr (str ''ya'')] 0 = Inr ?ms"
    by code_simp
  have s: "map item (array_sort sortRankedItems ?ms) = [JStr (str ''A''), JStr (str ''xa''), JStr (str ''ya'')]"
    by code_simp
  note T = order_of_output [THEN conjunct2, THEN conjunct2, THEN conjunct2, THEN conjunct1,
      THEN mp, OF h, THEN conjunct1]
  from T s have "matchSorter [JStr (str ''xa''), JStr (str ''b''), JStr (str ''A''), JStr (str ''ya'')] (JStr (str ''a''))
       default_options = Inr [JStr (str ''A''), JStr (str ''xa''), JStr (str ''ya'')]"
    by (simp only:)
  with h show ?thesis by (rule conjI)
qed

section \<open>Idempotence\<close>

text \<open>
  Claim C9. Applying \<open>matchSorter\<close> with the same query and options to its own
  output returns that output unchanged.
\<close>

theorem rank_filter_sort_idempotent:
  assumes "matchSorter items value opts = Inr out"
  shows "matchSorter out value opts = Inr out"
proof -
  from assms obtain ms where
    red: "reduce (reduceItemsToRanked (keys opts) value) [] items 0 = Inr ms"
    and out: "out = map item (array_sort sortRankedItems ms)"
    by (auto simp: matchSorter_Inr)
  let ?rs = "array_sort sortRankedItems ms"
  let ?rn = "map2 (\<lambda>j r. r\<lparr>index := j\<rparr>) [0..<0 + length ?rs] ?rs"
  from reduce_ranked [OF red] have
    srt: "sorted_wrt (\<lambda>r s. index r < index s) ms"
    and each: "\<forall>r\<in>set ms.
        getHighestRanking (item r) (keys opts) value = Inr \<lparr>rank = rank r, keyIndex = keyIndex r\<rparr>
        \<and> noMatch matchRankMap < rank r"
    by auto
  from srt have "sorted_wrt (<) (map index ms)"
    by (simp add: sorted_wrt_map)
  then have "distinct (map index ms)"
    by (simp add: strict_sorted_iff)
  then have sorted: "sorted_wrt order_policy ?rs"
    by (rule sorted_array_sort)
  from each have "\<forall>r\<in>set ?rs.
        getHighestRanking (item r) (keys opts) value = Inr \<lparr>rank = rank r, keyIndex = keyIndex r\<rparr>
        \<and> noMatch matchRankMap < rank r"
    by (simp only: set_array_sort)
  from reduce_rerank [OF this, of "[]" 0]
  have again: "reduce (reduceItemsToRanked (keys opts) value) [] out 0 = Inr ?rn"
    by (simp add: out)
  have "array_sort sortRankedItems ?rn = ?rn"
    using sorted by (intro array_sort_sorted sorted_renumbered)
  moreover have "map item ?rn = out"
    unfolding out by (rule item_renumbered)
  ultimately show ?thesis
    using again by (simp add: matchSorter_def)
qed

theorem rank_filter_sort_idempotent_witness:
  "matchSorter [JStr (str ''xa''), JStr (str ''b''), JStr (str ''A''), JStr (str ''ya'')] (JStr (str ''a'')) default_options
     = Inr [JStr (str ''A''), JStr (str ''xa''), JStr (str ''ya'')]
   \<and> matchSorter [JStr (str ''A''), JStr (str ''xa''), JStr (str ''ya'')] (JStr (str ''a'')) default_options
     = Inr [JStr (str ''A''), JStr (str ''xa''), JStr (str ''ya'')]"
proof -
  have h: "matchSorter [JStr (str ''xa''), JStr (str ''b''), JStr (str ''A''), JStr (str ''ya'')] (JStr (str ''a''))
      default_options = Inr [JStr (str ''A''), JStr (str ''xa''), JStr (str ''ya'')]"
    by code_simp
  from h rank_filter_sort_idempotent [OF h] show ?thesis
    by (rule conjI)
qed

section \<open>The empty query\<close>

lemma getMatchRanking_empty_query:
  assumes "toStr c = Inr ts" and "toLowerCase ts = Inr lt"
  shows "getMatchRanking c (JStr []) =
           Inr (if ts = [] then equals matchRankMap else startsWith matchRankMap)"
proof -
  have e: "toLowerCase [] = Inr []" by simp
  have n: "lt = [] \<longleftrightarrow> ts = []"
    using assms(2) toLowerCase_Nil_iff [of ts] by auto
  have "getMatchRanking c (JStr []) = getMatchRanking (JStr ts) (JStr [])"
    using assms(1) by (rule getMatchRanking_coerce) simp
  also have "\<dots> = Inr (if ts = [] then equals matchRankMap else startsWith matchRankMap)"
    unfolding getMatchRanking_str [OF assms(2) e] using n by auto
  finally show ?thesis .
qed

lemma getMatchRanking_Inr_lower:
  assumes "getMatchRanking c v = Inr r" and "toStr c = Inr ts"
  shows "\<exists>lt. toLowerCase ts = Inr lt"
  using assms by (auto simp: getMatchRanking_def split: sum.splits)

lemma rankKey_Inr:
  assumes "rankKey it v acc k i = Inr acc'"
  shows "\<exists>f r. getProp it k = Inr f \<and> getMatchRanking f v = Inr r
     \<and> acc' = (if rank acc < r then \<lparr>rank = r, keyIndex = int i\<rparr> else acc)"
proof (cases "getProp it k")
  case (Inl e)
  with assms show ?thesis by (simp add: rankKey_def)
next
  case f: (Inr f)
  show ?thesis
  proof (cases "getMatchRanking f v")
    case (Inl e)
    with f assms show ?thesis by (simp add: rankKey_def)
  next
    case (Inr r)
    with f assms have "acc' = (if rank acc < r then \<lparr>rank = r, keyIndex = int i\<rparr> else acc)"
      by (simp add: rankKey_def)
    with f Inr show ?thesis by blast
  qed
qed

text \<open>
  The selector loop reads every selector of the list, and returns a rank that no
  selector of the list exceeds.
\<close>

lemma reduce_rankKey_best:
  assumes "reduce (rankKey it v) acc ks i = Inr res"
  shows "rank acc \<le> rank res
     \<and> (\<forall>k\<in>set ks. \<exists>f r. getProp it k = Inr f \<and> getMatchRanking f v = Inr r
            \<and> r \<le> rank res)"
  using assms
proof (induction ks arbitrary: acc i)
  case Nil
  then show ?case by simp
next
  case (Cons k ks)
  from Cons.prems obtain acc' where
    step: "rankKey it v acc k i = Inr acc'"
    and rest: "reduce (rankKey it v) acc' ks (Suc i) = Inr res"
    by (auto split: sum.splits)
  from rankKey_Inr [OF step] obtain f r where
    f: "getProp it k = Inr f" and r: "getMatchRanking f v = Inr r"
    and acc': "acc' = (if rank acc < r then \<lparr>rank = r, keyIndex = int i\<rparr> else acc)"
    by blast
  from acc' have le: "rank acc \<le> rank acc'" "r \<le> rank acc'"
    by (simp_all split: if_splits)
  from Cons.IH [OF rest] have
    ih1: "rank acc' \<le> rank res"
    and ih2: "\<forall>k\<in>set ks. \<exists>f r. getProp it k = Inr f \<and> getMatchRanking f v = Inr r
            \<and> r \<le> rank res"
    by blast+
  from le ih1 have a: "rank acc \<le> rank res" "r \<le> rank res"
    by simp_all
  have "\<forall>k'\<in>set (k # ks). \<exists>f r. getProp it k' = Inr f \<and> getMatchRanking f v = Inr r
            \<and> r \<le> rank res"
  proof
    fix k'
    assume k': "k' \<in> set (k # ks)"
    show "\<exists>f r. getProp it k' = Inr f \<and> getMatchRanking f v = Inr r \<and> r \<le> rank res"
    proof (cases "k' = k")
      case True
      with f r a(2) show ?thesis by blast
    next
      case False
      with k' have "k' \<in> set ks" by simp
      with ih2 show ?thesis by blast
    qed
  qed
  with a(1) show ?case by (rule conjI)
qed

lemma survives_empty_query:
  assumes ms: "matchSorter items (JStr []) opts = Inr out"
    and it: "it \<in> set items"
    and cand: "(keys opts = None \<and> toStr it = Inr ts \<and> ts \<noteq> [])
       \<or> (keys opts = Some ks \<and> k \<in> set ks \<and> getProp it k = Inr f
           \<and> toStr f = Inr ts \<and> ts \<noteq> [])"
  shows "it \<in> set out"
proof -
  from ms obtain ms where
    red: "reduce (reduceItemsToRanked (keys opts) (JStr [])) [] items 0 = Inr ms"
    and out: "out = map item (array_sort sortRankedItems ms)"
    by (auto simp: matchSorter_Inr)
  from it obtain j where j: "j < length items" "items ! j = it"
    by (auto simp: in_set_conv_nth)
  from reduce_ranked_total [OF red it] obtain hr where
    hr: "getHighestRanking it (keys opts) (JStr []) = Inr hr"
    by blast
  have "startsWith matchRankMap \<le> rank hr"
    using cand
  proof (elim disjE conjE)
    assume n: "keys opts = None" and t: "toStr it = Inr ts" "ts \<noteq> []"
    from hr n obtain r where r: "getMatchRanking it (JStr []) = Inr r" and e: "rank hr = r"
      by (auto simp: getHighestRanking_def split: sum.splits)
    from getMatchRanking_Inr_lower [OF r t(1)] obtain lt where "toLowerCase ts = Inr lt"
      by blast
    from getMatchRanking_empty_query [OF t(1) this] r e t(2) show ?thesis
      by simp
  next
    assume k: "keys opts = Some ks" "k \<in> set ks" "getProp it k = Inr f"
      and t: "toStr f = Inr ts" "ts \<noteq> []"
    from hr k(1) have "reduce (rankKey it (JStr [])) \<lparr>rank = noMatch matchRankMap, keyIndex = - 1\<rparr>
        ks 0 = Inr hr"
      by (simp add: getHighestRanking_def)
    from reduce_rankKey_best [OF this] k(2,3) obtain r where
      r: "getMatchRanking f (JStr []) = Inr r" and le: "r \<le> rank hr"
      by force
    from getMatchRanking_Inr_lower [OF r t(1)] obtain lt where "toLowerCase ts = Inr lt"
      by blast
    from getMatchRanking_empty_query [OF t(1) this] r le t(2) show ?thesis
      by simp
  qed
  then have "noMatch matchRankMap < rank hr"
    by (simp add: matchRankMap_def)
  from reduce_ranked_complete [OF red j(1) _ this] hr j(2)
  obtain r where "r \<in> set ms" "item r = it"
    by auto
  then show ?thesis
    unfolding out by (force simp: set_array_sort)
qed

lemma two_tiers_sorted:
  assumes srt: "sorted_wrt (\<lambda>r s. index r < index s) ms"
    and ki: "\<forall>r\<in>set ms. keyIndex r = j"
    and rk: "\<forall>r\<in>set ms. rank r = hi \<or> rank r = lo"
    and lt: "lo < hi"
  shows "array_sort sortRankedItems ms
       = filter (\<lambda>r. rank r = hi) ms @ filter (\<lambda>r. rank r \<noteq> hi) ms"
proof (rule order_policy_unique)
  from srt have "sorted_wrt (<) (map index ms)"
    by (simp add: sorted_wrt_map)
  then have "distinct (map index ms)"
    by (simp add: strict_sorted_iff)
  then show "sorted_wrt order_policy (array_sort sortRankedItems ms)"
    by (rule sorted_array_sort)
  have s1: "sorted_wrt (\<lambda>r s. index r < index s) (filter (\<lambda>r. rank r = hi) ms)"
    and s2: "sorted_wrt (\<lambda>r s. index r < index s) (filter (\<lambda>r. rank r \<noteq> hi) ms)"
    using srt by (rule sorted_wrt_filter)+
  have p1: "sorted_wrt order_policy (filter (\<lambda>r. rank r = hi) ms)"
    using s1 by (rule sorted_wrt_mono_rel [rotated]) (use ki in \<open>auto simp: order_policy_def\<close>)
  have p2: "sorted_wrt order_policy (filter (\<lambda>r. rank r \<noteq> hi) ms)"
    using s2 by (rule sorted_wrt_mono_rel [rotated]) (use ki rk in \<open>auto simp: order_policy_def\<close>)
  have cross: "\<forall>a\<in>set (filter (\<lambda>r. rank r = hi) ms).
      \<forall>b\<in>set (filter (\<lambda>r. rank r \<noteq> hi) ms). order_policy a b"
    using rk lt by (auto simp: order_policy_def)
  show "sorted_wrt order_policy (filter (\<lambda>r. rank r = hi) ms @ filter (\<lambda>r. rank r \<noteq> hi) ms)"
    using p1 p2 cross by (simp add: sorted_wrt_append)
  show "mset (array_sort sortRankedItems ms)
      = mset (filter (\<lambda>r. rank r = hi) ms @ filter (\<lambda>r. rank r \<noteq> hi) ms)"
    by (simp add: mset_array_sort)
qed

lemma map_filter_item:
  "map f (filter (\<lambda>r. P (f r)) xs) = filter P (map f xs)"
  by (simp add: filter_map o_def)

lemma two_tiers_output:
  assumes srt: "sorted_wrt (\<lambda>r s. index r < index s) ms"
    and each: "\<forall>r\<in>set ms. keyIndex r = j \<and> rank r = (if Q (item r) then hi else lo)"
    and lt: "lo < hi"
  shows "map item (array_sort sortRankedItems ms)
       = filter Q (map item ms) @ filter (\<lambda>x. \<not> Q x) (map item ms)"
proof -
  have ki: "\<forall>r\<in>set ms. keyIndex r = j"
    using each by blast
  have rk: "\<forall>r\<in>set ms. rank r = hi \<or> rank r = lo"
  proof
    fix r assume "r \<in> set ms"
    with each have "rank r = (if Q (item r) then hi else lo)" by blast
    then show "rank r = hi \<or> rank r = lo" by (simp split: if_splits)
  qed
  have q: "rank r = hi \<longleftrightarrow> Q (item r)" if "r \<in> set ms" for r
  proof -
    from that each have "rank r = (if Q (item r) then hi else lo)" by blast
    with lt show ?thesis by (simp split: if_splits)
  qed
  have f1: "filter (\<lambda>r. rank r = hi) ms = filter (\<lambda>r. Q (item r)) ms"
    by (rule filter_cong [OF refl]) (rule q)
  have f2: "filter (\<lambda>r. rank r \<noteq> hi) ms = filter (\<lambda>r. \<not> Q (item r)) ms"
    by (rule filter_cong [OF refl]) (simp add: q)
  have m1: "map item (filter (\<lambda>r. Q (item r)) ms) = filter Q (map item ms)"
    by (rule map_filter_item)
  have m2: "map item (filter (\<lambda>r. \<not> Q (item r)) ms) = filter (\<lambda>x. \<not> Q x) (map item ms)"
    by (rule map_filter_item [of item "\<lambda>x. \<not> Q x"])
  show ?thesis
    unfolding two_tiers_sorted [OF srt ki rk lt] f1 f2 map_append m1 m2 ..
qed

lemma empty_query_no_keys:
  assumes "\<forall>it\<in>set items. \<exists>ts lt. toStr it = Inr ts \<and> toLowerCase ts = Inr lt"
  shows "matchSorter items (JStr []) \<lparr>keys = None\<rparr>
       = Inr (filter (\<lambda>it. toStr it = Inr []) items @ filter (\<lambda>it. toStr it \<noteq> Inr []) items)"
proof -
  define rk where "rk = (\<lambda>it. if toStr it = Inr [] then equals matchRankMap
                              else startsWith matchRankMap)"
  define rs where "rs = map (\<lambda>it. \<lparr>rank = rk it, keyIndex = - 1, item = it, index = 0\<rparr>) items"
  define ms where "ms = map2 (\<lambda>j r. r\<lparr>index := j\<rparr>) [0..<0 + length rs] rs"
  have hr: "getHighestRanking it None (JStr []) = Inr \<lparr>rank = rk it, keyIndex = - 1\<rparr>"
    if "it \<in> set items" for it
  proof -
    from assms that obtain ts lt where ts: "toStr it = Inr ts" and lt: "toLowerCase ts = Inr lt"
      by blast
    from getMatchRanking_empty_query [OF ts lt] ts show ?thesis
      by (simp add: getHighestRanking_def rk_def)
  qed
  have pos: "noMatch matchRankMap < rk it" for it
    by (simp add: rk_def matchRankMap_def)
  have "\<forall>r\<in>set rs. getHighestRanking (item r) None (JStr []) = Inr \<lparr>rank = rank r, keyIndex = keyIndex r\<rparr>
              \<and> noMatch matchRankMap < rank r"
    unfolding rs_def using hr pos by simp
  from reduce_rerank [OF this, of "[]" 0]
  have red: "reduce (reduceItemsToRanked None (JStr [])) [] items 0 = Inr ms"
    by (simp add: ms_def) (simp add: rs_def o_def)
  have "map item rs = items"
    by (simp add: rs_def o_def)
  then have items: "map item ms = items"
    unfolding ms_def by (simp only: item_renumbered)
  from reduce_ranked [OF red] obtain new where
    new: "ms = [] @ new"
    and srt': "sorted_wrt (\<lambda>r s. index r < index s) new"
    and each': "\<forall>r\<in>set new. 0 \<le> index r \<and> index r < 0 + length items
           \<and> item r = items ! (index r - 0)
           \<and> getHighestRanking (item r) None (JStr [])
               = Inr \<lparr>rank = rank r, keyIndex = keyIndex r\<rparr>
           \<and> noMatch matchRankMap < rank r"
    by blast
  from new have eq: "new = ms" by simp
  have srt: "sorted_wrt (\<lambda>r s. index r < index s) ms"
    using srt' unfolding eq .
  have each: "\<forall>r\<in>set ms. keyIndex r = - 1
      \<and> rank r = (if toStr (item r) = Inr [] then equals matchRankMap else startsWith matchRankMap)"
  proof
    fix r assume r: "r \<in> set ms"
    then have "r \<in> set new" unfolding eq .
    from bspec [OF each' this]
    have g: "getHighestRanking (item r) None (JStr []) = Inr \<lparr>rank = rank r, keyIndex = keyIndex r\<rparr>"
      by (elim conjE)
    from r have "item r \<in> set (map item ms)"
      by simp
    then have "item r \<in> set items"
      unfolding items .
    from hr [OF this] g have "rank r = rk (item r)" "keyIndex r = - 1"
      by simp_all
    then show "keyIndex r = - 1
      \<and> rank r = (if toStr (item r) = Inr [] then equals matchRankMap else startsWith matchRankMap)"
      by (simp add: rk_def)
  qed
  have lt: "startsWith matchRankMap < equals matchRankMap"
    by (simp add: matchRankMap_def)
  from two_tiers_output [OF srt each lt]
  have "map item (array_sort sortRankedItems ms)
      = filter (\<lambda>it. toStr it = Inr []) items @ filter (\<lambda>it. toStr it \<noteq> Inr []) items"
    unfolding items .
  with red show ?thesis
    by (simp add: matchSorter_def)
qed

text \<open>
  Claim C5, as stated, fails: with a selector list, two items of equal rank are put
  in the order of their winning selectors, not of the input. Both records below
  are ranked \<open>equals\<close> for the empty query (each has an empty field); the first wins
  on selector 1, the second on selector 0, and the second comes out first.
\<close>

theorem empty_query_counterexample:
  "getHighestRanking (JObj [(str ''a'', JStr (str ''x'')), (str ''b'', JStr [])])
       (Some [str ''a'', str ''b'']) (JStr []) = Inr \<lparr>rank = 5, keyIndex = 1\<rparr>
   \<and> getHighestRanking (JObj [(str ''a'', JStr []), (str ''b'', JStr (str ''y''))])
       (Some [str ''a'', str ''b'']) (JStr []) = Inr \<lparr>rank = 5, keyIndex = 0\<rparr>
   \<and> matchSorter [JObj [(str ''a'', JStr (str ''x'')), (str ''b'', JStr [])],
                   JObj [(str ''a'', JStr []), (str ''b'', JStr (str ''y''))]]
         (JStr []) \<lparr>keys = Some [str ''a'', str ''b'']\<rparr>
       = Inr [JObj [(str ''a'', JStr []), (str ''b'', JStr (str ''y''))],
              JObj [(str ''a'', JStr (str ''x'')), (str ''b'', JStr [])]]"
  by code_simp

text \<open>
  Claim C5, amended. With the empty string as query, a candidate whose text is not
  empty is ranked \<open>startsWith\<close>, which is \<open>contains\<close> or better. So an item survives
  and is in the output when its own text is not empty (no selector list) or when
  one of its selected fields has a text that is not empty. Items of equal rank
  and equal winning selector index appear in their input order: without a
  selector list the output is the items of empty text followed by the others,
  each group in input order; in general the records of one rank and one selector
  index keep the order they have in the input.
\<close>

theorem empty_query:
  "(toStr c = Inr ts \<and> toLowerCase ts = Inr lt \<and> ts \<noteq> [] \<longrightarrow>
      getMatchRanking c (JStr []) = Inr (startsWith matchRankMap)
      \<and> contains matchRankMap \<le> startsWith matchRankMap)
   \<and> (matchSorter items (JStr []) opts = Inr out \<and> it \<in> set items
       \<and> ((keys opts = None \<and> toStr it = Inr us \<and> us \<noteq> [])
          \<or> (keys opts = Some ks \<and> k \<in> set ks \<and> getProp it k = Inr f
              \<and> toStr f = Inr us \<and> us \<noteq> []))
       \<longrightarrow> it \<in> set out)
   \<and> ((\<forall>x\<in>set items. \<exists>xs lx. toStr x = Inr xs \<and> toLowerCase xs = Inr lx) \<longrightarrow>
        matchSorter items (JStr []) \<lparr>keys = None\<rparr>
          = Inr (filter (\<lambda>x. toStr x = Inr []) items @ filter (\<lambda>x. toStr x \<noteq> Inr []) items))
   \<and> (reduce (reduceItemsToRanked (keys opts) (JStr [])) [] items 0 = Inr ms \<longrightarrow>
        (\<forall>t j. filter (\<lambda>r. rank r = t \<and> keyIndex r = j) (array_sort sortRankedItems ms)
               = filter (\<lambda>r. rank r = t \<and> keyIndex r = j) ms))"
proof -
  have a: "toStr c = Inr ts \<and> toLowerCase ts = Inr lt \<and> ts \<noteq> [] \<longrightarrow>
      getMatchRanking c (JStr []) = Inr (startsWith matchRankMap)
      \<and> contains matchRankMap \<le> startsWith matchRankMap"
  proof (intro impI, elim conjE)
    assume t: "toStr c = Inr ts" and l: "toLowerCase ts = Inr lt" and n: "ts \<noteq> []"
    from getMatchRanking_empty_query [OF t l] n
    show "getMatchRanking c (JStr []) = Inr (startsWith matchRankMap)
      \<and> contains matchRankMap \<le> startsWith matchRankMap"
      by (simp add: matchRankMap_def)
  qed
  have b: "matchSorter items (JStr []) opts = Inr out \<and> it \<in> set items
       \<and> ((keys opts = None \<and> toStr it = Inr us \<and> us \<noteq> [])
          \<or> (keys opts = Some ks \<and> k \<in> set ks \<and> getProp it k = Inr f
              \<and> toStr f = Inr us \<and> us \<noteq> []))
       \<longrightarrow> it \<in> set out"
  proof (intro impI, elim conjE)
    assume "matchSorter items (JStr []) opts = Inr out" "it \<in> set items"
      "(keys opts = None \<and> toStr it = Inr us \<and> us \<noteq> [])
          \<or> (keys opts = Some ks \<and> k \<in> set ks \<and> getProp it k = Inr f
              \<and> toStr f = Inr us \<and> us \<noteq> [])"
    then show "it \<in> set out"
      by (rule survives_empty_query)
  qed
  have c: "(\<forall>x\<in>set items. \<exists>xs lx. toStr x = Inr xs \<and> toLowerCase xs = Inr lx) \<longrightarrow>
        matchSorter items (JStr []) \<lparr>keys = None\<rparr>
          = Inr (filter (\<lambda>x. toStr x = Inr []) items @ filter (\<lambda>x. toStr x \<noteq> Inr []) items)"
    by (rule impI) (rule empty_query_no_keys)
  have d: "reduce (reduceItemsToRanked (keys opts) (JStr [])) [] items 0 = Inr ms \<longrightarrow>
        (\<forall>t j. filter (\<lambda>r. rank r = t \<and> keyIndex r = j) (array_sort sortRankedItems ms)
               = filter (\<lambda>r. rank r = t \<and> keyIndex r = j) ms)"
  proof (intro impI allI)
    fix t j
    assume red: "reduce (reduceItemsToRanked (keys opts) (JStr [])) [] items 0 = Inr ms"
    from reduce_ranked [OF red] obtain new where
      new: "ms = [] @ new"
      and srt': "sorted_wrt (\<lambda>r s. index r < index s) new"
      by blast
    from new have eq: "new = ms" by simp
    have "sorted_wrt (\<lambda>r s. index r < index s) ms"
      using srt' unfolding eq .
    then show "filter (\<lambda>r. rank r = t \<and> keyIndex r = j) (array_sort sortRankedItems ms)
               = filter (\<lambda>r. rank r = t \<and> keyIndex r = j) ms"
      by (rule stable_within_class)
  qed
  show ?thesis
    by (intro conjI a b c d)
qed

theorem empty_query_witness:
  "toStr (JNum 7) = Inr [55]
   \<and> getMatchRanking (JNum 7) (JStr []) = Inr (startsWith matchRankMap)
   \<and> matchSorter [JStr (str ''b''), JStr [], JNum 7, JStr (str ''B'')] (JStr []) \<lparr>keys = None\<rparr>
       = Inr [JStr [], JStr (str ''b''), JNum 7, JStr (str ''B'')]"
proof -
  have n: "toStr (JNum 7) = Inr [55]"
    by code_simp
  have l: "toLowerCase [55] = Inr [55]"
    by code_simp
  have h: "toStr (JNum 7) = Inr [55] \<and> toLowerCase [55] = Inr [55] \<and> [55 :: nat] \<noteq> []"
    using n l by simp
  have lb: "toLowerCase (str ''b'') = Inr (str ''b'')" "toLowerCase (str ''B'') = Inr (str ''b'')"
    by code_simp+
  have r: "\<forall>x\<in>set [JStr (str ''b''), JStr [], JNum 7, JStr (str ''B'')].
      \<exists>xs lx. toStr x = Inr xs \<and> toLowerCase xs = Inr lx"
    using n l lb by simp
  have f: "filter (\<lambda>x. toStr x = Inr []) [JStr (str ''b''), JStr [], JNum 7, JStr (str ''B'')]
        @ filter (\<lambda>x. toStr x \<noteq> Inr []) [JStr (str ''b''), JStr [], JNum 7, JStr (str ''B'')]
      = [JStr [], JStr (str ''b''), JNum 7, JStr (str ''B'')]"
    using n by (simp add: str_def)
  note T = empty_query [of "JNum 7" "[55]" "[55]"
      "[JStr (str ''b''), JStr [], JNum 7, JStr (str ''B'')]"]
  note t1 = T [THEN conjunct1, THEN mp, OF h, THEN conjunct1]
  note t3 = T [THEN conjunct2, THEN conjunct2, THEN conjunct1, THEN mp, OF r]
  from t3 f have "matchSorter [JStr (str ''b''), JStr [], JNum 7, JStr (str ''B'')] (JStr [])
       \<lparr>keys = None\<rparr> = Inr [JStr [], JStr (str ''b''), JNum 7, JStr (str ''B'')]"
    by (simp only:)
  with n t1 show ?thesis
    by (intro conjI)
qed

section \<open>The selector indices of one call\<close>

text \<open>
  Within one call the selector indices of the matched records are all \<open>-1\<close> (no
  selector list) or all non-negative (a selector list): no call compares a record
  of selector index \<open>-1\<close> with one of a non-negative selector index.
\<close>

lemma reduce_rankKey_keyIndex:
  assumes "reduce (rankKey it v) acc ks i = Inr res"
    and "noMatch matchRankMap < rank acc \<longrightarrow> 0 \<le> keyIndex acc"
    and "noMatch matchRankMap \<le> rank acc"
  shows "noMatch matchRankMap < rank res \<longrightarrow> 0 \<le> keyIndex res"
  using assms
proof (induction ks arbitrary: acc i)
  case Nil
  then show ?case by simp
next
  case (Cons k ks)
  from Cons.prems(1) obtain acc' where
    step: "rankKey it v acc k i = Inr acc'"
    and rest: "reduce (rankKey it v) acc' ks (Suc i) = Inr res"
    by (auto split: sum.splits)
  from rankKey_Inr [OF step] obtain r where
    acc': "acc' = (if rank acc < r then \<lparr>rank = r, keyIndex = int i\<rparr> else acc)"
    by blast
  have 1: "noMatch matchRankMap < rank acc' \<longrightarrow> 0 \<le> keyIndex acc'"
    using Cons.prems(2) by (simp add: acc')
  have 2: "noMatch matchRankMap \<le> rank acc'"
    using Cons.prems(3) by (simp add: acc')
  from Cons.IH [OF rest 1 2] show ?case .
qed

lemma keyIndex_of_matched:
  assumes "reduce (reduceItemsToRanked ks v) [] items 0 = Inr ms" and "r \<in> set ms"
  shows "(ks = None \<longrightarrow> keyIndex r = - 1) \<and> (ks \<noteq> None \<longrightarrow> 0 \<le> keyIndex r)"
proof -
  from reduce_ranked [OF assms(1)] assms(2)
  have g: "getHighestRanking (item r) ks v = Inr \<lparr>rank = rank r, keyIndex = keyIndex r\<rparr>"
    and p: "noMatch matchRankMap < rank r"
    by auto
  show ?thesis
  proof (cases ks)
    case None
    with g show ?thesis
      by (auto simp: getHighestRanking_def split: sum.splits)
  next
    case (Some sel)
    with g have "reduce (rankKey (item r) v) \<lparr>rank = noMatch matchRankMap, keyIndex = - 1\<rparr> sel 0
        = Inr \<lparr>rank = rank r, keyIndex = keyIndex r\<rparr>"
      by (simp add: getHighestRanking_def)
    from reduce_rankKey_keyIndex [OF this] p Some show ?thesis
      by simp
  qed
qed

end
